theory Spec2Isabelle
  imports Main "HOL-Library.AList"
begin

section \<open>JavaScript values shared by both packages\<close>

text \<open>
  The values that cross the two surfaces are JSON data: the parsed body of a POST, the
  entries of a directory listing, the scalar hints of a VFS result, the \<open>code\<close> of an
  error. Numbers are modelled as integers (status codes, sizes, ids): \<open>JNum n\<close> is the
  JavaScript number \<open>n\<close>, which holds every integer of magnitude below \<open>2^53\<close> exactly.
  \<open>undefined\<close> is \<open>None\<close> of a \<open>json option\<close>. A string is a list of code units below
  \<open>0x100\<close>.
\<close>

datatype json =
    JNull
  | JBool bool
  | JNum int
  | JStr string
  | JArr "json list"
  | JObj "(string \<times> json) list"

text \<open>Truthiness, as \<open>if (v)\<close>, \<open>!v\<close> and \<open>a || b\<close> read a value.\<close>

fun truthy :: "json option \<Rightarrow> bool" where
  "truthy None = False"
| "truthy (Some JNull) = False"
| "truthy (Some (JBool b)) = b"
| "truthy (Some (JNum n)) = (n \<noteq> 0)"
| "truthy (Some (JStr s)) = (s \<noteq> [])"
| "truthy (Some (JArr xs)) = True"
| "truthy (Some (JObj kvs)) = True"

text \<open>
  \<open>Number.isSafeInteger\<close>, on integers: the magnitude is below \<open>2^53\<close>.
\<close>

definition safe_integer :: "int \<Rightarrow> bool" where
  "safe_integer n \<longleftrightarrow> - 9007199254740992 < n \<and> n < 9007199254740992"

text \<open>
  Number to string, as \<open>"" + n\<close> prints a safe integer: decimal digits, a leading minus
  sign for a negative one.
\<close>

definition digit :: "nat \<Rightarrow> char" where
  "digit d = ''0123456789'' ! d"

fun show_nat :: "nat \<Rightarrow> string" where
  "show_nat n = (if n < 10 then [digit n] else show_nat (n div 10) @ [digit (n mod 10)])"

declare show_nat.simps [simp del]

definition show_int :: "int \<Rightarrow> string" where
  "show_int i = (if i < 0 then CHR ''-'' # show_nat (nat (- i)) else show_nat (nat i))"

section \<open>The HTTP gateway (package vfs-http-adapter, file restful.js)\<close>

subsection \<open>Errors and the response object\<close>

text \<open>
  What \<open>errorHandler\<close> reads of the value it is given: \<open>err.code\<close>, \<open>err.message\<close> (a
  string when present) and the result of \<open>err.toString()\<close>. The gateway passes
  \<open>Error\<close> objects and plain strings; a string has neither \<open>code\<close> nor \<open>message\<close> and
  is its own \<open>toString()\<close>.
\<close>

record js_error =
  err_code :: "json option"
  err_message :: "string option"
  err_toString :: string

definition string_error :: "string \<Rightarrow> js_error" where
  "string_error s = \<lparr>err_code = None, err_message = None, err_toString = s\<rparr>"

definition new_Error :: "string \<Rightarrow> js_error" where
  "new_Error msg =
     \<lparr>err_code = None, err_message = Some msg,
      err_toString = (if msg = [] then ''Error'' else ''Error: '' @ msg)\<rparr>"

text \<open>
  The response: \<open>res.headersSent\<close>, \<open>res.statusCode\<close> (200 until set), the headers set
  with \<open>res.setHeader\<close>, and what \<open>res.end\<close> wrote. A header value is a string or a
  number; \<open>HNaN\<close> and \<open>HUndefined\<close> are what arithmetic on a missing field and a
  missing field itself give.
\<close>

datatype hval = HStr string | HNum int | HNaN | HUndefined

record response =
  headersSent :: bool
  statusCode :: int
  headers :: "(string \<times> hval) list"
  ended :: bool
  body :: string

definition new_response :: response where
  "new_response = \<lparr>headersSent = False, statusCode = 200, headers = [], ended = False, body = []\<rparr>"

definition setHeader :: "string \<Rightarrow> hval \<Rightarrow> response \<Rightarrow> response" where
  "setHeader name v res = res\<lparr>headers := AList.update name v (headers res)\<rparr>"

definition getHeader :: "response \<Rightarrow> string \<Rightarrow> hval option" where
  "getHeader res name = map_of (headers res) name"

definition res_end :: "string \<Rightarrow> response \<Rightarrow> response" where
  "res_end chunk res = res\<lparr>headersSent := True, ended := True, body := body res @ chunk\<rparr>"

subsection \<open>errorHandler\<close>

definition isValidStatusCode :: "int \<Rightarrow> bool" where
  "isValidStatusCode c \<longleftrightarrow> c \<ge> 100 \<and> c \<le> 999"

text \<open>\<open>typeof err.code == "number" && isValidStatusCode(err.code)\<close>\<close>

fun numeric_status :: "json option \<Rightarrow> int option" where
  "numeric_status (Some (JNum n)) = (if isValidStatusCode n then Some n else None)"
| "numeric_status _ = None"

text \<open>
  The default handler (\<open>mountOptions.errorHandler\<close> replaces it when given). \<open>code\<close> is
  the optional fourth argument; \<open>if (code)\<close> is false for a missing one and for 0. The
  \<open>console.error\<close> line writes to the log only and is left out.
\<close>

definition errorHandler :: "response \<Rightarrow> js_error \<Rightarrow> int option \<Rightarrow> response" where
  "errorHandler res err code =
     (if headersSent res then res_end [] res
      else
        let status =
              (case code of
                 Some c \<Rightarrow> if c \<noteq> 0 then Some c else None
               | None \<Rightarrow> None);
            res1 = res\<lparr>statusCode :=
              (case status of
                 Some c \<Rightarrow> c
               | None \<Rightarrow>
                  (case numeric_status (err_code err) of
                     Some n \<Rightarrow> n
                   | None \<Rightarrow>
                       if err_code err = Some (JStr ''EBADREQUEST'') then 400
                       else if err_code err = Some (JStr ''EACCES'') then 403
                       else if err_code err = Some (JStr ''ENOENT'') then 200
                       else if err_code err = Some (JStr ''ENOTREADY'') then 503
                       else if err_code err = Some (JStr ''EISDIR'') then 503
                       else 500))\<rparr>;
            message =
              (case err_message err of
                 Some m \<Rightarrow> if m \<noteq> [] then m else err_toString err
               | None \<Rightarrow> err_toString err) @ ''\<newline>'';
            res2 = setHeader ''Content-Type'' (HStr ''text/x-error'') res1;
            res3 = setHeader ''Content-Length'' (HNum (int (length message))) res2
        in res_end message res3)"

text \<open>
  The table of the specification, section 7, written from its rows: the status the
  table gives an error by its \<open>code\<close> alone.
\<close>

fun table_status :: "json option \<Rightarrow> int" where
  "table_status (Some (JNum n)) = (if 100 \<le> n \<and> n \<le> 999 then n else 500)"
| "table_status (Some (JStr s)) =
     (if s = ''EBADREQUEST'' then 400
      else if s = ''EACCES'' then 403
      else if s = ''ENOENT'' then 200
      else if s = ''ENOTREADY'' then 503
      else if s = ''EISDIR'' then 503
      else 500)"
| "table_status _ = 500"

definition error_body :: "js_error \<Rightarrow> string" where
  "error_body err =
     (case err_message err of
        Some m \<Rightarrow> if m \<noteq> [] then m else err_toString err
      | None \<Rightarrow> err_toString err) @ ''\<newline>''"

subsection \<open>jsonEncoder\<close>








text \<open>
  The source stream of a GET as the gateway sees it: whether it has \<open>pause\<close> and
  \<open>resume\<close>, and its \<open>readable\<close> flag. The encoder gets a \<open>pause\<close> (a \<open>resume\<close>) of
  its own only when the input has one; calling it calls the input's.
\<close>

record source_stream =
  src_pause :: bool
  src_resume :: bool
  src_readable :: bool

datatype stream_call = Input_pause | Input_resume | Input_destroy



subsection \<open>GET and HEAD: onGet\<close>

text \<open>The result object of a VFS call, with the fields \<open>onGet\<close> reads.\<close>

record partial_content =
  pc_start :: int
  pc_end :: int
  pc_size :: int

record meta =
  meta_rangeNotSatisfiable :: "js_error option"
  meta_etag :: "string option"
  meta_notModified :: bool
  meta_partialContent :: "partial_content option"
  meta_stream :: "source_stream option"
  meta_mime :: "string option"
  meta_size :: "int option"
  meta_metadataSize :: "int option"
  meta_metadataStringLength :: "int option"

record mount_options =
  autoIndex :: "string option"
  noMime :: bool
  readOnly :: bool

record get_options =
  opt_head :: bool
  encoding_null :: bool

text \<open>
  What \<open>onGet\<close> leaves behind besides the response: whether it called \<open>vfs.readdir\<close>
  again (the one fallback of \<open>autoIndex\<close>), what it did with \<open>meta.stream\<close>, and whether
  it registered the listener of the request's \<open>close\<close> event, the only place of the
  gateway that calls \<open>meta.stream.destroy()\<close>.
\<close>

datatype stream_use = On_error_abort | Pipe_json | Pipe_bytes

record get_result =
  g_res :: response
  g_readdir_again :: bool
  g_stream_uses :: "stream_use list"
  g_close_listener :: bool

definition hval_of :: "int option \<Rightarrow> hval" where
  "hval_of v = (case v of Some n \<Rightarrow> HNum n | None \<Rightarrow> HUndefined)"

definition hval_add :: "int option \<Rightarrow> int option \<Rightarrow> hval" where
  "hval_add a b = (case (a, b) of (Some x, Some y) \<Rightarrow> HNum (x + y) | _ \<Rightarrow> HNaN)"

text \<open>A number that may be missing, in a string concatenation.\<close>

definition show_num :: "int option \<Rightarrow> string" where
  "show_num v = (case v of Some n \<Rightarrow> show_int n | None \<Rightarrow> ''undefined'')"

definition eight_MB :: int where
  "eight_MB = 8 * 1024 * 1024"

definition set_content_headers :: "mount_options \<Rightarrow> get_options \<Rightarrow> meta \<Rightarrow> response \<Rightarrow> response" where
  "set_content_headers mo options m res =
     (if meta_stream m \<noteq> None \<or> opt_head options then
        let res1 = (case meta_mime m of
                      Some t \<Rightarrow>
                        if noMime mo then
                          setHeader ''X-VFS-Content-Type'' (HStr t)
                            (setHeader ''Content-Type'' (HStr ''application/octet-stream'') res)
                        else setHeader ''Content-Type'' (HStr t) res
                    | None \<Rightarrow> res);
            res2 = (case meta_size m of
                      Some n \<Rightarrow>
                        let r = setHeader ''Content-Length'' (HNum n) res1
                        in (case meta_partialContent m of
                              Some pc \<Rightarrow>
                                setHeader ''Content-Range''
                                  (HStr (''bytes '' @ show_int (pc_start pc) @ ''-''
                                     @ show_int (pc_end pc) @ ''/'' @ show_int (pc_size pc))) r
                            | None \<Rightarrow> r)
                    | None \<Rightarrow> res1)
        in if encoding_null options
           then setHeader ''Content-Type'' (HStr ''application/json'') res2
           else res2
      else res)"

definition finished :: "response \<Rightarrow> get_result" where
  "finished res = \<lparr>g_res = res, g_readdir_again = False, g_stream_uses = [], g_close_listener = False\<rparr>"

text \<open>
  \<open>onGet(err, meta)\<close>. \<open>eh\<close> is the error handler in force, \<open>now\<close> the text of
  \<open>(new Date()).toUTCString()\<close>, \<open>tryAgain\<close> the flag the dispatch set when it tried
  \<open>autoIndex\<close> first. The callback gets an error (\<open>Inl\<close>) or a result (\<open>Inr\<close>).
\<close>

definition onGet ::
  "(response \<Rightarrow> js_error \<Rightarrow> int option \<Rightarrow> response) \<Rightarrow> mount_options \<Rightarrow> string \<Rightarrow>
   get_options \<Rightarrow> bool \<Rightarrow> response \<Rightarrow> js_error + meta \<Rightarrow> get_result" where
  "onGet eh mo now options tryAgain res0 result =
     (let res = setHeader ''Date'' (HStr now) res0 in
      case result of
        Inl err \<Rightarrow>
          if tryAgain then (finished res)\<lparr>g_readdir_again := True\<rparr>
          else finished (eh res err None)
      | Inr m \<Rightarrow>
          (case meta_rangeNotSatisfiable m of
             Some e \<Rightarrow> finished (eh res e (Some 416))
           | None \<Rightarrow>
              let res1 = (case meta_etag m of Some t \<Rightarrow> setHeader ''ETag'' (HStr t) res | None \<Rightarrow> res);
                  res2 = (if meta_notModified m then res1\<lparr>statusCode := 304\<rparr> else res1);
                  res3 = (if meta_partialContent m \<noteq> None then res2\<lparr>statusCode := 206\<rparr> else res2);
                  res4 = set_content_headers mo options m res3
              in
               (case meta_stream m of
                  Some s \<Rightarrow>
                    if (case meta_size m of Some n \<Rightarrow> n > eight_MB | None \<Rightarrow> False) then
                      finished (eh res4
                        (string_error (''File size is bigger than allowed ''
                           @ ''(8MB). Size is '' @ show_num (meta_size m)
                           @ '' bytes'')) (Some 513))
                    else
                      let res5 =
                            (if meta_metadataSize m \<noteq> None then
                               setHeader ''Content-Length'' (hval_add (meta_size m) (meta_metadataSize m))
                                 (setHeader ''X-Metadata-Length'' (hval_of (meta_metadataStringLength m))
                                    (setHeader ''X-Content-Length'' (hval_of (meta_size m)) res4))
                             else res4)
                      in \<lparr>g_res = res5, g_readdir_again = False,
                          g_stream_uses =
                            [On_error_abort,
                             if encoding_null options then Pipe_json else Pipe_bytes],
                          g_close_listener = True\<rparr>
                | None \<Rightarrow> finished (res_end [] res4))))"

text \<open>
  The listener of the request's \<open>close\<close> event, registered at the end of the stream
  branch of \<open>onGet\<close>: the calls it makes on \<open>meta.stream\<close> and the stream afterwards.
\<close>

definition on_req_close :: "source_stream \<Rightarrow> stream_call list \<times> source_stream" where
  "on_req_close s =
     (if src_readable s then ([Input_destroy], s\<lparr>src_readable := False\<rparr>) else ([], s))"

text \<open>
  All the calls the gateway makes on \<open>meta.stream\<close> once \<open>onGet\<close> has run: none
  without the \<open>close\<close> listener, those of the listener when the client goes away.
\<close>

definition calls_after_get :: "get_result \<Rightarrow> source_stream \<Rightarrow> bool \<Rightarrow> stream_call list" where
  "calls_after_get g s client_closes =
     (if g_close_listener g \<and> client_closes then fst (on_req_close s) else [])"

subsection \<open>POST of a JSON command\<close>

text \<open>
  Property access \<open>message.k\<close> on the value \<open>JSON.parse\<close> returned: \<open>null\<close> has no
  properties and the access throws a \<open>TypeError\<close>; an object gives its field or
  \<open>undefined\<close>; a number, a boolean, a string and an array have no property of these
  names.
\<close>

datatype type_error = TypeError

fun get_property :: "json \<Rightarrow> string \<Rightarrow> type_error + json option" where
  "get_property JNull k = Inl TypeError"
| "get_property (JObj kvs) k = Inr (map_of kvs k)"
| "get_property _ k = Inr None"

datatype vfs_command = Vfs_rename | Vfs_copy | Vfs_symlink | Vfs_metadata

record post_options =
  opt_from :: "json option"
  opt_target :: "json option"
  opt_metadata :: "json option"

definition no_options :: post_options where
  "no_options = \<lparr>opt_from = None, opt_target = None, opt_metadata = None\<rparr>"

datatype post_outcome =
    Abort js_error
  | Command vfs_command string post_options
  | Uncaught type_error
  | Body_not_modelled

text \<open>
  The listener of the request's \<open>end\<close> event for a POST to a path that does not end in
  \<open>/\<close>. \<open>JSON.parse\<close> is a parameter: it returns the value or the error it threw,
  and \<open>None\<close> for a body whose value this model does not hold (then the outcome is
  \<open>Body_not_modelled\<close>). The four tests read \<open>message.renameFrom\<close>, \<open>message.copyFrom\<close>,
  \<open>message.linkTo\<close> and \<open>message.metadata\<close> in this order; the first read throws when
  \<open>message\<close> is \<open>null\<close>, outside the \<open>try\<close>.
\<close>

definition post_on_end ::
  "(string \<Rightarrow> (js_error + json) option) \<Rightarrow> string \<Rightarrow> string \<Rightarrow> post_outcome" where
  "post_on_end JSON_parse path data =
     (case JSON_parse data of
        None \<Rightarrow> Body_not_modelled
      | Some (Inl err) \<Rightarrow> Abort err
      | Some (Inr message) \<Rightarrow>
         (case get_property message ''renameFrom'' of
            Inl e \<Rightarrow> Uncaught e
          | Inr renameFrom \<Rightarrow>
             if truthy renameFrom then Command Vfs_rename path (no_options\<lparr>opt_from := renameFrom\<rparr>)
             else
              (case get_property message ''copyFrom'' of
                 Inl e \<Rightarrow> Uncaught e
               | Inr copyFrom \<Rightarrow>
                  if truthy copyFrom then Command Vfs_copy path (no_options\<lparr>opt_from := copyFrom\<rparr>)
                  else
                   (case get_property message ''linkTo'' of
                      Inl e \<Rightarrow> Uncaught e
                    | Inr linkTo \<Rightarrow>
                       if truthy linkTo then Command Vfs_symlink path (no_options\<lparr>opt_target := linkTo\<rparr>)
                       else
                        (case get_property message ''metadata'' of
                           Inl e \<Rightarrow> Uncaught e
                         | Inr md \<Rightarrow>
                            if truthy md then Command Vfs_metadata path (no_options\<lparr>opt_metadata := md\<rparr>)
                            else Abort (new_Error (''Invalid command in POST '' @ data)))))))"

text \<open>The response to an outcome: \<open>abort\<close>, or the callback of the command.\<close>

definition post_callback :: "response \<Rightarrow> js_error option \<Rightarrow> response" where
  "post_callback res err =
     (case err of
        Some e \<Rightarrow> errorHandler res e None
      | None \<Rightarrow> res_end [] (setHeader ''Content-Type'' (HStr ''text/plain'') res))"

subsection \<open>Inputs of the scenarios\<close>

text \<open>Scenario S4: the VFS returns a stream of 9 MiB.\<close>

definition oversized_stream :: source_stream where
  "oversized_stream = \<lparr>src_pause = True, src_resume = True, src_readable = True\<rparr>"

definition oversized_meta :: meta where
  "oversized_meta =
     \<lparr>meta_rangeNotSatisfiable = None, meta_etag = None, meta_notModified = False, meta_partialContent = None,
      meta_stream = Some oversized_stream,
      meta_mime = None, meta_size = Some (9 * 1024 * 1024), meta_metadataSize = None,
      meta_metadataStringLength = None\<rparr>"

definition plain_get :: get_options where
  "plain_get = \<lparr>opt_head = False, encoding_null = False\<rparr>"

definition no_mount_options :: mount_options where
  "no_mount_options = \<lparr>autoIndex = None, noMime = False, readOnly = False\<rparr>"

text \<open>
  The selection of a POST command as the claim words it: the first of the four fields
  that is truthy decides, and none gives no command.
\<close>

definition first_truthy :: "json \<Rightarrow> (vfs_command \<times> post_options) option" where
  "first_truthy message =
     (case message of
        JObj kvs \<Rightarrow>
          if truthy (map_of kvs ''renameFrom'')
            then Some (Vfs_rename, no_options\<lparr>opt_from := map_of kvs ''renameFrom''\<rparr>)
          else if truthy (map_of kvs ''copyFrom'')
            then Some (Vfs_copy, no_options\<lparr>opt_from := map_of kvs ''copyFrom''\<rparr>)
          else if truthy (map_of kvs ''linkTo'')
            then Some (Vfs_symlink, no_options\<lparr>opt_target := map_of kvs ''linkTo''\<rparr>)
          else if truthy (map_of kvs ''metadata'')
            then Some (Vfs_metadata, no_options\<lparr>opt_metadata := map_of kvs ''metadata''\<rparr>)
          else None
      | _ \<Rightarrow> None)"

subsection \<open>JSON text: \<open>JSON.stringify\<close> and \<open>JSON.parse\<close>\<close>




text \<open>
  The keys of an object come in the order they were created, except that array indices
  come first. A list of keys stands for the keys of an object when no key is repeated;
  one with a key made of digits only is left out of the model.
\<close>

definition is_digit :: "char \<Rightarrow> bool" where
  "is_digit c = (48 \<le> (of_char c :: nat) \<and> (of_char c :: nat) \<le> 57)"

definition digits_only :: "string \<Rightarrow> bool" where
  "digits_only k \<longleftrightarrow> k \<noteq> [] \<and> list_all is_digit k"

definition plain_keys :: "string list \<Rightarrow> bool" where
  "plain_keys ks \<longleftrightarrow> distinct ks \<and> \<not> list_ex digits_only ks"

text \<open>
  \<open>JSON.stringify(value)\<close> with one argument: no white space, the keys of an object in
  their order, a string between double quotes with \<open>"\<close>, \<open>\\<close> and the code units
  below \<open>0x20\<close> escaped (the short escapes \<open>\b \f \n \r \t\<close> where there is one,
  \<open>\u00XX\<close> in lower-case hexadecimal otherwise), \<open>null\<close> for \<open>NaN\<close> and the infinities.
  A safe integer prints as \<open>show_int\<close> prints it. The result is \<open>None\<close> where the model
  does not say what the text is: for an integer that is not safe, and for an object
  whose keys are outside the model.
\<close>

definition hex_digit :: "nat \<Rightarrow> char" where
  "hex_digit d = ''0123456789abcdef'' ! d"

definition quote_char :: "char \<Rightarrow> string" where
  "quote_char c =
     (if c = CHR 0x22 then [CHR 0x5C, CHR 0x22]
      else if c = CHR 0x5C then [CHR 0x5C, CHR 0x5C]
      else if c = CHR 0x08 then [CHR 0x5C, CHR ''b'']
      else if c = CHR 0x0C then [CHR 0x5C, CHR ''f'']
      else if c = CHR 0x0A then [CHR 0x5C, CHR ''n'']
      else if c = CHR 0x0D then [CHR 0x5C, CHR ''r'']
      else if c = CHR 0x09 then [CHR 0x5C, CHR ''t'']
      else if (of_char c :: nat) < 32 then
        [CHR 0x5C, CHR ''u'', CHR ''0'', CHR ''0'',
         hex_digit (of_char c div 16), hex_digit (of_char c mod 16)]
      else [c])"

definition quote :: "string \<Rightarrow> string" where
  "quote s = CHR 0x22 # concat (map quote_char s) @ [CHR 0x22]"

fun comma_separated :: "string list \<Rightarrow> string" where
  "comma_separated [] = []"
| "comma_separated [x] = x"
| "comma_separated (x # y # ys) = x @ '','' @ comma_separated (y # ys)"




text \<open>
  \<open>JSON.parse(text)\<close> has three outcomes here: the value, the \<open>SyntaxError\<close> it throws,
  and \<open>Not_modelled\<close> where the text may be valid JSON whose value this model does not
  hold: a number with a fraction or an exponent, an integer that is not safe, \<open>-0\<close>, a
  code unit above \<open>0xFF\<close> written as \<open>\uXXXX\<close>, an object with a key made of digits
  only. White space is space, line feed, carriage return and tab.
\<close>

datatype 'a parsed = Parsed 'a | Syntax_error | Not_modelled

definition is_ws :: "char \<Rightarrow> bool" where
  "is_ws c = (c = CHR 0x20 \<or> c = CHR 0x0A \<or> c = CHR 0x0D \<or> c = CHR 0x09)"

definition ws :: "string \<Rightarrow> string" where
  "ws s = dropWhile is_ws s"

definition digits_val :: "string \<Rightarrow> nat" where
  "digits_val ds = foldl (\<lambda>a c. 10 * a + (of_char c - 48)) 0 ds"

definition exponent_ok :: "string \<Rightarrow> bool" where
  "exponent_ok r =
     (let r1 = tl r;
          r2 = (if r1 \<noteq> [] \<and> hd r1 \<in> {CHR ''+'', CHR ''-''} then tl r1 else r1)
      in takeWhile is_digit r2 \<noteq> [])"

definition parse_number :: "string \<Rightarrow> (json \<times> string) parsed" where
  "parse_number s =
     (let neg = (s \<noteq> [] \<and> hd s = CHR ''-'');
          r = (if neg then tl s else s);
          ds = takeWhile is_digit r;
          r1 = dropWhile is_digit r
      in if ds = [] \<or> (hd ds = CHR ''0'' \<and> 1 < length ds) then Syntax_error
         else if r1 \<noteq> [] \<and> hd r1 = CHR ''.'' then
           (let r2 = dropWhile is_digit (tl r1)
            in if takeWhile is_digit (tl r1) = [] then Syntax_error
               else if r2 \<noteq> [] \<and> hd r2 \<in> {CHR ''e'', CHR ''E''} \<and> \<not> exponent_ok r2
                 then Syntax_error
               else Not_modelled)
         else if r1 \<noteq> [] \<and> hd r1 \<in> {CHR ''e'', CHR ''E''} then
           (if exponent_ok r1 then Not_modelled else Syntax_error)
         else if neg \<and> digits_val ds = 0 then Not_modelled
         else if safe_integer (int (digits_val ds)) then
           Parsed (JNum (if neg then - int (digits_val ds) else int (digits_val ds)), r1)
         else Not_modelled)"

definition hex_val :: "char \<Rightarrow> nat option" where
  "hex_val c =
     (let n = (of_char c :: nat) in
      if 48 \<le> n \<and> n \<le> 57 then Some (n - 48)
      else if 97 \<le> n \<and> n \<le> 102 then Some (n - 87)
      else if 65 \<le> n \<and> n \<le> 70 then Some (n - 55)
      else None)"

definition hex4 :: "char \<Rightarrow> char \<Rightarrow> char \<Rightarrow> char \<Rightarrow> char parsed" where
  "hex4 a b c d =
     (case (hex_val a, hex_val b, hex_val c, hex_val d) of
        (Some w, Some x, Some y, Some z) \<Rightarrow>
          let n = ((w * 16 + x) * 16 + y) * 16 + z
          in if n < 256 then Parsed (char_of n) else Not_modelled
      | _ \<Rightarrow> Syntax_error)"

definition unescape :: "char \<Rightarrow> char parsed" where
  "unescape e =
     (if e = CHR 0x22 then Parsed (CHR 0x22)
      else if e = CHR 0x5C then Parsed (CHR 0x5C)
      else if e = CHR ''/'' then Parsed (CHR ''/'')
      else if e = CHR ''b'' then Parsed (CHR 0x08)
      else if e = CHR ''f'' then Parsed (CHR 0x0C)
      else if e = CHR ''n'' then Parsed (CHR 0x0A)
      else if e = CHR ''r'' then Parsed (CHR 0x0D)
      else if e = CHR ''t'' then Parsed (CHR 0x09)
      else Syntax_error)"

definition cons_char :: "char parsed \<Rightarrow> (string \<times> string) parsed \<Rightarrow> (string \<times> string) parsed" where
  "cons_char c r =
     (case c of
        Parsed x \<Rightarrow>
          (case r of
             Parsed (xs, rest) \<Rightarrow> Parsed (x # xs, rest)
           | Syntax_error \<Rightarrow> Syntax_error
           | Not_modelled \<Rightarrow> Not_modelled)
      | Syntax_error \<Rightarrow> Syntax_error
      | Not_modelled \<Rightarrow> Not_modelled)"

fun parse_string :: "string \<Rightarrow> (string \<times> string) parsed" where
  "parse_string [] = Syntax_error"
| "parse_string (c # cs) =
     (if c = CHR 0x22 then Parsed ([], cs)
      else if c = CHR 0x5C then
        (case cs of
           [] \<Rightarrow> Syntax_error
         | e # r \<Rightarrow>
             if e = CHR ''u'' then
               (case r of
                  a # b # c' # d # r' \<Rightarrow> cons_char (hex4 a b c' d) (parse_string r')
                | _ \<Rightarrow> Syntax_error)
             else cons_char (unescape e) (parse_string r))
      else if (of_char c :: nat) < 32 then Syntax_error
      else cons_char (Parsed c) (parse_string cs))"

text \<open>
  A key that comes again replaces the value of the first and keeps its place.
\<close>

definition literal :: "string \<Rightarrow> json \<Rightarrow> string \<Rightarrow> (json \<times> string) parsed" where
  "literal lit v s =
     (if take (length lit) s = lit then Parsed (v, drop (length lit) s) else Syntax_error)"

definition object_of :: "(string \<times> json) list \<Rightarrow> json parsed" where
  "object_of members =
     (if list_ex digits_only (map fst members) then Not_modelled
      else Parsed (JObj (foldl (\<lambda>obj kv. AList.update (fst kv) (snd kv) obj) [] members)))"

definition with_rest :: "'a parsed \<Rightarrow> string \<Rightarrow> ('a \<times> string) parsed" where
  "with_rest r rest =
     (case r of Parsed v \<Rightarrow> Parsed (v, rest) | Syntax_error \<Rightarrow> Syntax_error
      | Not_modelled \<Rightarrow> Not_modelled)"

text \<open>
  Values, the elements of an array after its \<open>[\<close> and the members of an object after
  its \<open>{\<close>. The first argument bounds the number of nested calls, and running out of
  it is \<open>Not_modelled\<close>; every call reads at least one character or hands over to a
  call that does, so twice the length of the text is enough.
\<close>

fun parse_value :: "nat \<Rightarrow> string \<Rightarrow> (json \<times> string) parsed"
  and parse_elements :: "nat \<Rightarrow> string \<Rightarrow> (json list \<times> string) parsed"
  and parse_members :: "nat \<Rightarrow> string \<Rightarrow> ((string \<times> json) list \<times> string) parsed"
where
  "parse_value 0 s = Not_modelled"
| "parse_value (Suc n) s =
     (case ws s of
        [] \<Rightarrow> Syntax_error
      | c # cs \<Rightarrow>
          if c = CHR ''n'' then literal ''null'' JNull (c # cs)
          else if c = CHR ''t'' then literal ''true'' (JBool True) (c # cs)
          else if c = CHR ''f'' then literal ''false'' (JBool False) (c # cs)
          else if c = CHR 0x22 then
            (case parse_string cs of
               Parsed (x, r) \<Rightarrow> Parsed (JStr x, r)
             | Syntax_error \<Rightarrow> Syntax_error
             | Not_modelled \<Rightarrow> Not_modelled)
          else if c = CHR ''['' then
            (if ws cs \<noteq> [] \<and> hd (ws cs) = CHR '']'' then Parsed (JArr [], tl (ws cs))
             else (case parse_elements n cs of
                     Parsed (xs, r) \<Rightarrow> Parsed (JArr xs, r)
                   | Syntax_error \<Rightarrow> Syntax_error
                   | Not_modelled \<Rightarrow> Not_modelled))
          else if c = CHR ''{'' then
            (if ws cs \<noteq> [] \<and> hd (ws cs) = CHR ''}'' then Parsed (JObj [], tl (ws cs))
             else (case parse_members n cs of
                     Parsed (members, r) \<Rightarrow> with_rest (object_of members) r
                   | Syntax_error \<Rightarrow> Syntax_error
                   | Not_modelled \<Rightarrow> Not_modelled))
          else parse_number (c # cs))"
| "parse_elements 0 s = Not_modelled"
| "parse_elements (Suc n) s =
     (case parse_value n s of
        Syntax_error \<Rightarrow> Syntax_error
      | Not_modelled \<Rightarrow> Not_modelled
      | Parsed (v, r) \<Rightarrow>
          (case ws r of
             [] \<Rightarrow> Syntax_error
           | c # r' \<Rightarrow>
               if c = CHR '','' then
                 (case parse_elements n r' of
                    Parsed (vs, r'') \<Rightarrow> Parsed (v # vs, r'')
                  | Syntax_error \<Rightarrow> Syntax_error
                  | Not_modelled \<Rightarrow> Not_modelled)
               else if c = CHR '']'' then Parsed ([v], r')
               else Syntax_error))"
| "parse_members 0 s = Not_modelled"
| "parse_members (Suc n) s =
     (case ws s of
        [] \<Rightarrow> Syntax_error
      | q # s1 \<Rightarrow>
          if q \<noteq> CHR 0x22 then Syntax_error
          else
            (case parse_string s1 of
               Syntax_error \<Rightarrow> Syntax_error
             | Not_modelled \<Rightarrow> Not_modelled
             | Parsed (k, s2) \<Rightarrow>
                 (case ws s2 of
                    [] \<Rightarrow> Syntax_error
                  | col # s3 \<Rightarrow>
                      if col \<noteq> CHR '':'' then Syntax_error
                      else
                        (case parse_value n s3 of
                           Syntax_error \<Rightarrow> Syntax_error
                         | Not_modelled \<Rightarrow> Not_modelled
                         | Parsed (v, s4) \<Rightarrow>
                             (case ws s4 of
                                [] \<Rightarrow> Syntax_error
                              | c # s5 \<Rightarrow>
                                  if c = CHR '','' then
                                    (case parse_members n s5 of
                                       Parsed (members, r) \<Rightarrow> Parsed ((k, v) # members, r)
                                     | Syntax_error \<Rightarrow> Syntax_error
                                     | Not_modelled \<Rightarrow> Not_modelled)
                                  else if c = CHR ''}'' then Parsed ([(k, v)], s5)
                                  else Syntax_error)))))"

definition parse_JSON :: "string \<Rightarrow> json parsed" where
  "parse_JSON s =
     (case parse_value (Suc (2 * length s)) s of
        Parsed (v, r) \<Rightarrow> if ws r = [] then Parsed v else Syntax_error
      | Syntax_error \<Rightarrow> Syntax_error
      | Not_modelled \<Rightarrow> Not_modelled)"

text \<open>
  \<open>JSON.parse\<close> inside \<open>try { ... } catch (err)\<close>: the value, or the \<open>SyntaxError\<close> it
  threw. The wording of its message is the engine's, the parameter \<open>msg\<close>.
\<close>

definition syntax_error :: "string \<Rightarrow> js_error" where
  "syntax_error m =
     \<lparr>err_code = None, err_message = Some m,
      err_toString = (if m = [] then ''SyntaxError'' else ''SyntaxError: '' @ m)\<rparr>"

definition JSON_parse :: "(string \<Rightarrow> string) \<Rightarrow> string \<Rightarrow> (js_error + json) option" where
  "JSON_parse msg s =
     (case parse_JSON s of
        Parsed v \<Rightarrow> Some (Inr v)
      | Syntax_error \<Rightarrow> Some (Inl (syntax_error (msg s)))
      | Not_modelled \<Rightarrow> None)"

text \<open>
  The JSON data the round trip is proved for: every number a safe integer, the keys of
  every object distinct and none made of digits only.
\<close>

fun representable :: "json \<Rightarrow> bool" where
  "representable (JNum n) = safe_integer n"
| "representable (JArr xs) = list_all representable xs"
| "representable (JObj kvs) =
     (plain_keys (map fst kvs) \<and> list_all (\<lambda>kv. representable (snd kv)) kvs)"
| "representable v = True"

text \<open>
  For the proofs: the compact text of JSON data (what \<open>JSON_stringify\<close> gives on
  representable data, lemma \<open>JSON_stringify_of_json\<close>), what may follow a number, the calls
  the parser needs for a value, and the text of the elements of an array (of the members
  of an object) up to the closing bracket, with white space \<open>sep\<close> after every comma and
  \<open>close\<close> before the bracket.
\<close>

fun json_text :: "json \<Rightarrow> string" where
  "json_text JNull = ''null''"
| "json_text (JBool b) = (if b then ''true'' else ''false'')"
| "json_text (JNum n) = show_int n"
| "json_text (JStr s) = quote s"
| "json_text (JArr xs) = ''['' @ comma_separated (map json_text xs) @ '']''"
| "json_text (JObj kvs) =
     ''{'' @ comma_separated (map (\<lambda>kv. quote (fst kv) @ '':'' @ json_text (snd kv)) kvs) @ ''}''"

definition terminated :: "string \<Rightarrow> bool" where
  "terminated rest =
     (rest = [] \<or> (\<not> is_digit (hd rest) \<and> hd rest \<notin> {CHR ''.'', CHR ''e'', CHR ''E''}))"

fun cost :: "json \<Rightarrow> nat" where
  "cost (JArr xs) = Suc (sum_list (map (\<lambda>x. Suc (cost x)) xs))"
| "cost (JObj kvs) = Suc (sum_list (map (\<lambda>kv. Suc (cost (snd kv))) kvs))"
| "cost v = 1"

fun elems :: "string \<Rightarrow> string \<Rightarrow> json list \<Rightarrow> string" where
  "elems sep close [] = close @ '']''"
| "elems sep close [x] = json_text x @ close @ '']''"
| "elems sep close (x # y # ys) = json_text x @ '','' @ sep @ elems sep close (y # ys)"

fun membs :: "(string \<times> json) list \<Rightarrow> string" where
  "membs [] = ''}''"
| "membs [kv] = quote (fst kv) @ '':'' @ json_text (snd kv) @ ''}''"
| "membs (kv # y # ys) = quote (fst kv) @ '':'' @ json_text (snd kv) @ '','' @ membs (y # ys)"





section \<open>The RPC worker (package vfs-socket, file worker.js)\<close>

subsection \<open>Values, tokens and resources\<close>

text \<open>
  The primitive values of JavaScript, and the values a result object of the VFS can
  hold: a primitive or JSON data (\<open>Plain\<close>), a live resource (a stream, a process, a
  pty or a watcher, by its address in the heap), an API object, and what the worker
  puts in their place.
\<close>

datatype prim = Undefined | Null | Bool bool | Num int | Str string

fun truthy_prim :: "prim \<Rightarrow> bool" where
  "truthy_prim Undefined = False"
| "truthy_prim Null = False"
| "truthy_prim (Bool b) = b"
| "truthy_prim (Num n) = (n \<noteq> 0)"
| "truthy_prim (Str s) = (s \<noteq> [])"

type_synonym addr = nat

datatype token =
  Token (tok_id: "nat option") (tok_readable: "bool option") (tok_writable: "bool option")
        (tok_pid: "nat option") (tok_stdin: "token option") (tok_stdout: "token option")
        (tok_stderr: "token option")

record api =
  api_name :: string
  api_names :: "string list"

datatype val =
    Undef
  | Plain json
  | Resource addr
  | Api_obj api
  | Tok token
  | Pid nat
  | Api_tok string "string list"

type_synonym object = "(string \<times> val) list"

datatype cb_value = Prim prim | Obj object

fun truthy_cb :: "cb_value \<Rightarrow> bool" where
  "truthy_cb (Prim p) = truthy_prim p"
| "truthy_cb (Obj kvs) = True"

text \<open>An argument that was not passed reads as \<open>undefined\<close>.\<close>

definition arg :: "nat \<Rightarrow> cb_value list \<Rightarrow> cb_value" where
  "arg n args = (if n < length args then args ! n else Prim Undefined)"

text \<open>\<open>v == undefined\<close>: true of \<open>undefined\<close> and of \<open>null\<close>.\<close>

fun nullish :: "val option \<Rightarrow> bool" where
  "nullish None = True"
| "nullish (Some Undef) = True"
| "nullish (Some (Plain JNull)) = True"
| "nullish (Some v) = False"

text \<open>\<open>ToString\<close>, as the concatenation \<open>process.pid + ": " + err.stack\<close> applies it.\<close>

fun join :: "string \<Rightarrow> string list \<Rightarrow> string" where
  "join sep [] = []"
| "join sep [x] = x"
| "join sep (x # y # ys) = x @ sep @ join sep (y # ys)"

fun json_to_string :: "json \<Rightarrow> string" where
  "json_to_string JNull = ''null''"
| "json_to_string (JBool b) = (if b then ''true'' else ''false'')"
| "json_to_string (JNum n) = show_int n"
| "json_to_string (JStr s) = s"
| "json_to_string (JArr xs) =
     join '','' (map (\<lambda>x. if x = JNull then [] else json_to_string x) xs)"
| "json_to_string (JObj kvs) = ''[object Object]''"

fun to_string :: "val option \<Rightarrow> string" where
  "to_string None = ''undefined''"
| "to_string (Some Undef) = ''undefined''"
| "to_string (Some (Plain j)) = json_to_string j"
| "to_string (Some (Pid n)) = show_nat n"
| "to_string (Some v) = ''[object Object]''"

text \<open>
  The listeners the worker puts on a resource with \<open>.on\<close>; each is a closure over the
  id or pid it was registered for (\<open>On_process_close\<close> also over \<open>onlyPid\<close>).
\<close>

datatype listener =
    On_error nat
  | On_data nat
  | On_end nat
  | On_close nat
  | On_exit nat
  | On_process_close nat bool
  | On_kill nat
  | On_change nat

fun event_of :: "listener \<Rightarrow> string" where
  "event_of (On_error i) = ''error''"
| "event_of (On_data i) = ''data''"
| "event_of (On_end i) = ''end''"
| "event_of (On_close i) = ''close''"
| "event_of (On_exit p) = ''exit''"
| "event_of (On_process_close p onlyPid) = ''close''"
| "event_of (On_kill p) = ''kill''"
| "event_of (On_change i) = ''change''"

text \<open>\<open>process.kill\<close>: the resource's own, or the one \<open>storeProcess\<close> assigns.\<close>

datatype kill_impl = Native_kill | Killtree_of nat

text \<open>
  A resource as the worker reads and writes it. \<open>r_token\<close> and \<open>r_id\<close> are the
  properties \<open>token\<close> and \<open>id\<close> the worker attaches; \<open>r_readable\<close> is the value of
  \<open>readable\<close> and \<open>r_own_readable\<close> whether \<open>hasOwnProperty("readable")\<close> holds;
  \<open>r_pause = Some b\<close> says that the resource has a \<open>pause\<close> and that calling it runs the
  \<open>pause\<close> of resource \<open>b\<close> (itself, or the socket \<open>storePty\<close> bound it to). A process
  has a pid and three stdio streams.
\<close>

record resource =
  r_token :: "token option"
  r_id :: "nat option"
  r_readable :: bool
  r_own_readable :: bool
  r_writable :: bool
  r_own_writable :: bool
  r_pause :: "addr option"
  r_resume :: "addr option"
  r_socket :: "addr option"
  r_pid :: nat
  r_stdin :: addr
  r_stdout :: addr
  r_stderr :: addr
  r_unreffed :: bool
  r_kill :: kill_impl
  r_listeners :: "listener list"

text \<open>A proxy stream made by \<open>makeStreamProxy\<close>; \<open>p_obj\<close> tells the objects apart.\<close>

record proxy =
  p_obj :: nat
  p_readable :: bool
  p_writable :: bool

text \<open>
  The peer: the functions \<open>remoteApi\<close> holds (every use is guarded,
  \<open>remote.onData && remote.onData(...)\<close>), and whether a call of \<open>onData\<close> returns
  \<open>false\<close>.
\<close>

record remote_api =
  peer_functions :: "string list"
  onData_returns_false :: "nat \<Rightarrow> val \<Rightarrow> bool"

text \<open>
  The arguments of an RPC call: values and functions. The functions are callbacks of
  the peer and the two closures the worker wraps around them.
\<close>

datatype callback =
    Peer_cb nat
  | Ping_wrapper int rpc_arg
  | Marshal_wrapper callback
and rpc_arg =
    Val cb_value
  | Fn callback

text \<open>What the worker does to the world outside, in the order it does it.\<close>

datatype effect =
    Remote string "val list"
  | Call addr string "val list"
  | Vfs_killtree nat val
  | Emit addr string "val list"
  | Proxy_emit nat string
  | Api_apply string string "rpc_arg list"
  | Deliver nat "cb_value list"

subsection \<open>The state of one Worker\<close>

text \<open>
  The registries are objects keyed by id or pid, kept as association lists;
  \<open>Object.keys\<close> lists integer keys in ascending order.
\<close>

type_synonym 'v registry = "(nat \<times> 'v) list"

definition hasOwnProperty :: "'v registry \<Rightarrow> nat \<Rightarrow> bool" where
  "hasOwnProperty d k \<longleftrightarrow> map_of d k \<noteq> None"

definition object_keys :: "'v registry \<Rightarrow> nat list" where
  "object_keys d = sort (remdups (map fst d))"

record worker =
  proxyStreams :: "proxy registry"
  streams :: "addr registry"
  watchers :: "addr registry"
  processes :: "addr registry"
  apis :: "(string \<times> api) list"
  nextStreamID :: nat
  nextWatcherID :: nat
  heap :: "addr \<Rightarrow> resource"
  remote :: remote_api
  server_pid :: nat
  proxies_made :: nat
  trace :: "effect list"

definition new_resource :: resource where
  "new_resource =
     \<lparr>r_token = None, r_id = None, r_readable = False, r_own_readable = False,
      r_writable = False, r_own_writable = False, r_pause = None, r_resume = None,
      r_socket = None, r_pid = 0, r_stdin = 0, r_stdout = 0, r_stderr = 0,
      r_unreffed = False, r_kill = Native_kill, r_listeners = []\<rparr>"

definition new_Worker :: "(addr \<Rightarrow> resource) \<Rightarrow> remote_api \<Rightarrow> nat \<Rightarrow> worker" where
  "new_Worker h peer pid =
     \<lparr>proxyStreams = [], streams = [], watchers = [], processes = [], apis = [],
      nextStreamID = 1, nextWatcherID = 1, heap = h, remote = peer, server_pid = pid,
      proxies_made = 0, trace = []\<rparr>"

definition log :: "effect \<Rightarrow> worker \<Rightarrow> worker" where
  "log e w = w\<lparr>trace := trace w @ [e]\<rparr>"

text \<open>\<open>remote.f && remote.f(args)\<close>\<close>

definition remote_call :: "string \<Rightarrow> val list \<Rightarrow> worker \<Rightarrow> worker" where
  "remote_call f args w = (if f \<in> set (peer_functions (remote w)) then log (Remote f args) w else w)"

definition modify :: "addr \<Rightarrow> (resource \<Rightarrow> resource) \<Rightarrow> worker \<Rightarrow> worker" where
  "modify a f w = w\<lparr>heap := (heap w)(a := f (heap w a))\<rparr>"

text \<open>The outcome of a function that can also throw or run for ever.\<close>

datatype 'a outcome = Done 'a | Loops | Throws | Unmodelled

subsection \<open>makeStreamProxy\<close>

definition makeStreamProxy :: "token \<Rightarrow> worker \<Rightarrow> proxy \<times> worker" where
  "makeStreamProxy tk w =
     (let p = \<lparr>p_obj = proxies_made w,
               p_readable = (case tok_readable tk of Some b \<Rightarrow> b | None \<Rightarrow> False),
               p_writable = (case tok_writable tk of Some b \<Rightarrow> b | None \<Rightarrow> False)\<rparr>
      in case tok_id tk of
           Some i \<Rightarrow>
             (p, w\<lparr>proxyStreams := AList.update i p (proxyStreams w),
                   proxies_made := proxies_made w + 1\<rparr>)
         | None \<Rightarrow> (p, w\<lparr>proxies_made := proxies_made w + 1\<rparr>))"

subsection \<open>The id allocator\<close>

text \<open>
  \<open>while (streams.hasOwnProperty(nextStreamID)) { nextStreamID = (nextStreamID + 1) % 10000; }\<close>
  The loop returns the first free slot from the cursor on, and \<open>None\<close> when it
  does not return.
\<close>

partial_function (option) skip_occupied :: "(nat \<Rightarrow> bool) \<Rightarrow> nat \<Rightarrow> nat option" where
  "skip_occupied occupied c =
     (if occupied c then skip_occupied occupied ((c + 1) mod 10000) else Some c)"

subsection \<open>storeStream\<close>

definition storeStream :: "addr \<Rightarrow> worker \<Rightarrow> (token \<times> worker) option" where
  "storeStream a w =
     (case r_token (heap w a) of
        Some tk \<Rightarrow> Some (tk, w)
      | None \<Rightarrow>
         (case skip_occupied (hasOwnProperty (streams w)) ((nextStreamID w + 1) mod 10000) of
            None \<Rightarrow> None
          | Some i \<Rightarrow>
              let s = heap w a;
                  tk = Token (Some i)
                         (if r_own_readable s then Some (r_readable s) else None)
                         (if r_own_writable s then Some (r_writable s) else None)
                         None None None None
              in Some (tk,
                   modify a (\<lambda>s. s\<lparr>r_id := Some i,
                       r_listeners := r_listeners s @ [On_error i]
                         @ (if r_readable s then [On_data i, On_end i] else [])
                         @ [On_close i],
                       r_token := Some tk\<rparr>)
                     (w\<lparr>nextStreamID := i, streams := AList.update i a (streams w)\<rparr>))))"

subsection \<open>storeProcess\<close>

text \<open>
  \<open>processes.token\<close> reads the property named \<open>token\<close> of the registry object itself.
  The keys of the registry are pids, which are numbers, so the property is never there
  and the read gives \<open>undefined\<close> whatever the registry holds.
\<close>

definition processes_token :: "worker \<Rightarrow> token option" where
  "processes_token w = None"

definition val_of_token :: "token option \<Rightarrow> val" where
  "val_of_token t = (case t of Some tk \<Rightarrow> Tok tk | None \<Rightarrow> Undef)"

definition storeProcess :: "addr \<Rightarrow> bool \<Rightarrow> worker \<Rightarrow> (val \<times> worker) option" where
  "storeProcess p onlyPid w =
     (let pid = r_pid (heap w p) in
      if processes_token w \<noteq> None then
        Some (if onlyPid then Pid (r_pid (heap w p)) else val_of_token (r_token (heap w p)), w)
      else
        let w1 = modify p (\<lambda>s. s\<lparr>r_listeners := r_listeners s
                                     @ [On_exit pid, On_process_close pid onlyPid],
                                  r_kill := Killtree_of pid,
                                  r_token := Some (Token None None None (Some pid) None None None)\<rparr>)
                   (w\<lparr>processes := AList.update pid p (processes w)\<rparr>)
        in if onlyPid then Some (Pid pid, w1)
           else
            (case storeStream (r_stdin (heap w1 p)) w1 of
               None \<Rightarrow> None
             | Some (t_in, w2) \<Rightarrow>
                (case storeStream (r_stdout (heap w2 p)) w2 of
                   None \<Rightarrow> None
                 | Some (t_out, w3) \<Rightarrow>
                    (case storeStream (r_stderr (heap w3 p)) w3 of
                       None \<Rightarrow> None
                     | Some (t_err, w4) \<Rightarrow>
                        let tk = Token None None None (Some pid) (Some t_in) (Some t_out) (Some t_err)
                        in Some (Tok tk, modify p (\<lambda>s. s\<lparr>r_token := Some tk\<rparr>) w4)))))"

subsection \<open>storePty\<close>

definition set_tok_pid :: "val \<Rightarrow> token \<Rightarrow> token" where
  "set_tok_pid v tk =
     (case tk of Token i r w p a b c \<Rightarrow>
        Token i r w (case v of Pid n \<Rightarrow> Some n | _ \<Rightarrow> None) a b c)"

definition storePty :: "addr \<Rightarrow> worker \<Rightarrow> (val \<times> worker) option" where
  "storePty p w =
     (if map_of (processes w) (r_pid (heap w p)) = Some p then
        Some (val_of_token (r_token (heap w p)), w)
      else
       (case storeProcess p True w of
          None \<Rightarrow> None
        | Some (pid, w1) \<Rightarrow>
           let w2 = modify p (\<lambda>s. s\<lparr>r_token := None\<rparr>) w1;
               w3 = modify p (\<lambda>s.
                      if r_resume s = None then
                        (case r_socket s of
                           Some k \<Rightarrow> s\<lparr>r_resume := r_resume (heap w2 k)\<rparr>
                         | None \<Rightarrow> s)
                      else s) w2;
               w4 = modify p (\<lambda>s.
                      if r_pause s = None then
                        (case r_socket s of
                           Some k \<Rightarrow> s\<lparr>r_pause := r_pause (heap w3 k)\<rparr>
                         | None \<Rightarrow> s)
                      else s) w3
           in (case storeStream p w4 of
                 None \<Rightarrow> None
               | Some (tk0, w5) \<Rightarrow>
                  let tk = set_tok_pid pid tk0;
                      w6 = modify p (\<lambda>s. s\<lparr>r_token := Some tk,
                              r_listeners := r_listeners s
                                @ (case pid of Pid n \<Rightarrow> [On_kill n] | _ \<Rightarrow> [])\<rparr>) w5
                  in Some (Tok tk, w6))))"

subsection \<open>storeWatcher and storeApi\<close>

definition storeWatcher :: "addr \<Rightarrow> worker \<Rightarrow> (token \<times> worker) option" where
  "storeWatcher a w =
     (case skip_occupied (hasOwnProperty (watchers w)) ((nextWatcherID w + 1) mod 10000) of
        None \<Rightarrow> None
      | Some i \<Rightarrow>
          Some (Token (Some i) None None None None None None,
            modify a (\<lambda>s. s\<lparr>r_id := Some i, r_listeners := r_listeners s @ [On_change i]\<rparr>)
              (w\<lparr>nextWatcherID := i, watchers := AList.update i a (watchers w)\<rparr>)))"

definition storeApi :: "api \<Rightarrow> worker \<Rightarrow> val \<times> worker" where
  "storeApi x w =
     (Api_tok (api_name x) (api_names x),
      w\<lparr>apis := AList.update (api_name x) x (apis w)\<rparr>)"

subsection \<open>The listeners of a resource\<close>

definition argv :: "nat \<Rightarrow> val list \<Rightarrow> val" where
  "argv n args = (if n < length args then args ! n else Undef)"

definition num :: "nat \<Rightarrow> val" where
  "num n = Plain (JNum (int n))"

definition delete_stream_of :: "addr \<Rightarrow> worker \<Rightarrow> worker" where
  "delete_stream_of s w =
     (case r_id (heap w s) of
        Some i \<Rightarrow> w\<lparr>streams := AList.delete i (streams w)\<rparr>
      | None \<Rightarrow> w)"

text \<open>
  The body of each listener, run on the resource \<open>a\<close> it was put on with the arguments
  of the event.
\<close>

fun run_listener :: "addr \<Rightarrow> val list \<Rightarrow> listener \<Rightarrow> worker \<Rightarrow> worker" where
  "run_listener a args (On_error i) w = remote_call ''onError'' [num i, argv 0 args] w"
| "run_listener a args (On_data i) w =
     (if ''onData'' \<in> set (peer_functions (remote w)) then
        let w1 = log (Remote ''onData'' [num i, argv 0 args]) w in
        if onData_returns_false (remote w) i (argv 0 args) then
          (if r_pause (heap w a) \<noteq> None then log (Call a ''pause'' []) w1 else w1)
        else w1
      else w)"
| "run_listener a args (On_end i) w =
     remote_call ''onEnd'' [num i, argv 0 args] (w\<lparr>streams := AList.delete i (streams w)\<rparr>)"
| "run_listener a args (On_close i) w =
     remote_call ''onClose'' [num i] (w\<lparr>streams := AList.delete i (streams w)\<rparr>)"
| "run_listener a args (On_exit pid) w =
     remote_call ''onExit'' [num pid, argv 0 args, argv 1 args]
       (w\<lparr>processes := AList.delete pid (processes w)\<rparr>)"
| "run_listener a args (On_process_close pid onlyPid) w =
     (let w1 = w\<lparr>processes := AList.delete pid (processes w)\<rparr>;
          w2 = (if \<not> onlyPid then
                  delete_stream_of (r_stdin (heap w1 a))
                    (delete_stream_of (r_stderr (heap w1 a))
                       (delete_stream_of (r_stdout (heap w1 a)) w1))
                else w1)
      in remote_call ''onProcessClose'' [num pid, argv 0 args, argv 1 args] w2)"
| "run_listener a args (On_kill pid) w = remote_call ''onPtyKill'' [num pid] w"
| "run_listener a args (On_change i) w =
     remote_call ''onChange'' [num i, argv 0 args, argv 1 args, argv 2 args, argv 3 args] w"

text \<open>
  An event \<open>name\<close> with arguments \<open>args\<close> on resource \<open>a\<close>: the listeners of that name
  run in the order they were registered, the list taken when the event starts.
\<close>

definition dispatch :: "addr \<Rightarrow> string \<Rightarrow> val list \<Rightarrow> worker \<Rightarrow> worker" where
  "dispatch a name args w =
     fold (run_listener a args) (filter (\<lambda>l. event_of l = name) (r_listeners (heap w a))) w"

subsection \<open>Endpoints of the peer\<close>

definition write_rpc :: "nat \<Rightarrow> val \<Rightarrow> worker \<Rightarrow> worker" where
  "write_rpc i chunk w =
     (case map_of (streams w) i of
        None \<Rightarrow> w
      | Some a \<Rightarrow> log (Call a ''write'' [chunk]) w)"

definition resume :: "nat \<Rightarrow> worker \<Rightarrow> worker" where
  "resume i w =
     (case map_of (streams w) i of
        None \<Rightarrow> w
      | Some a \<Rightarrow> if r_resume (heap w a) \<noteq> None then log (Call a ''resume'' []) w else w)"

definition pause :: "nat \<Rightarrow> worker \<Rightarrow> worker" where
  "pause i w =
     (case map_of (streams w) i of
        None \<Rightarrow> w
      | Some a \<Rightarrow> if r_pause (heap w a) \<noteq> None then log (Call a ''pause'' []) w else w)"

text \<open>
  \<open>process.kill(...)\<close>: the function \<open>storeProcess\<close> assigned calls
  \<open>vfs.killtree(pid, {code: code}, ...)\<close> with its first argument.
\<close>

definition process_kill :: "addr \<Rightarrow> val list \<Rightarrow> worker \<Rightarrow> worker" where
  "process_kill a args w =
     (case r_kill (heap w a) of
        Killtree_of pid \<Rightarrow> log (Vfs_killtree pid (argv 0 args)) w
      | Native_kill \<Rightarrow> log (Call a ''kill'' args) w)"

definition kill :: "nat \<Rightarrow> val \<Rightarrow> worker \<Rightarrow> worker" where
  "kill pid code w =
     (case map_of (processes w) pid of
        None \<Rightarrow> w
      | Some a \<Rightarrow> process_kill a [code] w)"

definition unref :: "nat \<Rightarrow> worker \<Rightarrow> worker" where
  "unref pid w =
     (case map_of (processes w) pid of
        None \<Rightarrow> w
      | Some a \<Rightarrow> modify a (\<lambda>s. s\<lparr>r_unreffed := True\<rparr>) (log (Call a ''unref'' []) w))"

definition closeWatcher :: "nat \<Rightarrow> worker \<Rightarrow> worker" where
  "closeWatcher i w =
     (case map_of (watchers w) i of
        None \<Rightarrow> w
      | Some a \<Rightarrow> log (Call a ''close'' []) (w\<lparr>watchers := AList.delete i (watchers w)\<rparr>))"

definition onClose :: "nat \<Rightarrow> worker \<Rightarrow> worker" where
  "onClose i w =
     (case map_of (proxyStreams w) i of
        None \<Rightarrow> w
      | Some p \<Rightarrow>
          log (Proxy_emit (p_obj p) ''close'')
            (w\<lparr>proxyStreams := AList.delete i (proxyStreams w)\<rparr>))"

subsection \<open>drain and disconnect\<close>

text \<open>
  \<open>Object.keys(registry).forEach(f)\<close>: the keys are taken once, the body runs for each
  in turn, and an exception in one ends the whole handler.
\<close>

fun for_each :: "(nat \<Rightarrow> worker \<Rightarrow> worker outcome) \<Rightarrow> nat list \<Rightarrow> worker \<Rightarrow> worker outcome" where
  "for_each f [] w = Done w"
| "for_each f (k # ks) w =
     (case f k w of
        Done w' \<Rightarrow> for_each f ks w'
      | Loops \<Rightarrow> Loops
      | Throws \<Rightarrow> Throws
      | Unmodelled \<Rightarrow> Unmodelled)"

definition and_then :: "'a outcome \<Rightarrow> ('a \<Rightarrow> 'b outcome) \<Rightarrow> 'b outcome" where
  "and_then r f =
     (case r of
        Done x \<Rightarrow> f x
      | Loops \<Rightarrow> Loops
      | Throws \<Rightarrow> Throws
      | Unmodelled \<Rightarrow> Unmodelled)"

text \<open>
  The bodies of the two loops of the \<open>drain\<close> handler. Reading \<open>stream.readable\<close> of
  a missing entry throws.
\<close>

definition drain_stream :: "nat \<Rightarrow> worker \<Rightarrow> worker outcome" where
  "drain_stream i w =
     (case map_of (streams w) i of
        None \<Rightarrow> Throws
      | Some a \<Rightarrow>
          Done (if r_readable (heap w a) \<and> r_resume (heap w a) \<noteq> None
                then log (Call a ''resume'' []) w else w))"

definition drain_proxy :: "nat \<Rightarrow> worker \<Rightarrow> worker outcome" where
  "drain_proxy i w =
     (case map_of (proxyStreams w) i of
        None \<Rightarrow> Throws
      | Some p \<Rightarrow> Done (if p_writable p then log (Proxy_emit (p_obj p) ''drain'') w else w))"

definition drain :: "worker \<Rightarrow> worker outcome" where
  "drain w =
     and_then (for_each drain_stream (object_keys (streams w)) w)
       (\<lambda>w1. for_each drain_proxy (object_keys (proxyStreams w1)) w1)"

text \<open>The four loops of the \<open>disconnect\<close> handler.\<close>

fun truthy_val :: "val \<Rightarrow> bool" where
  "truthy_val Undef = False"
| "truthy_val (Plain j) = truthy (Some j)"
| "truthy_val v = True"

definition EDISCONNECT :: val where
  "EDISCONNECT =
     Plain (JObj [(''message'', JStr ''EDISCONNECT: vfs socket disconnected''),
                  (''code'', JStr ''EDISCONNECT'')])"

definition disconnect_process :: "nat \<Rightarrow> worker \<Rightarrow> worker outcome" where
  "disconnect_process pid w =
     (case map_of (processes w) pid of
        None \<Rightarrow> Throws
      | Some a \<Rightarrow>
          let w1 = (if \<not> r_unreffed (heap w a) then process_kill a [] w else w)
          in Done (w1\<lparr>processes := AList.delete pid (processes w1)\<rparr>))"

definition disconnect_stream :: "val \<Rightarrow> nat \<Rightarrow> worker \<Rightarrow> worker outcome" where
  "disconnect_stream err i w =
     (case map_of (streams w) i of
        None \<Rightarrow> Throws
      | Some a \<Rightarrow> Done (dispatch a ''close'' [err] (log (Emit a ''close'' [err]) w)))"

definition disconnect_watcher :: "nat \<Rightarrow> worker \<Rightarrow> worker outcome" where
  "disconnect_watcher i w =
     (case map_of (watchers w) i of
        None \<Rightarrow> Throws
      | Some a \<Rightarrow> Done (log (Call a ''close'' []) (w\<lparr>watchers := AList.delete i (watchers w)\<rparr>)))"

definition disconnect :: "val \<Rightarrow> worker \<Rightarrow> worker outcome" where
  "disconnect err0 w =
     (let err = (if \<not> truthy_val err0 then EDISCONNECT else err0) in
      and_then (for_each disconnect_process (object_keys (processes w)) w) (\<lambda>w1.
      and_then (for_each (disconnect_stream err) (object_keys (streams w1)) w1) (\<lambda>w2.
      and_then (for_each (\<lambda>i w. Done (onClose i w)) (object_keys (proxyStreams w2)) w2) (\<lambda>w3.
      for_each disconnect_watcher (object_keys (watchers w3)) w3))))"

subsection \<open>processCallback\<close>

definition get_own :: "cb_value \<Rightarrow> string \<Rightarrow> val option" where
  "get_own v k = (case v of Obj kvs \<Rightarrow> map_of kvs k | Prim p \<Rightarrow> None)"

text \<open>\<open>if (err.hasOwnProperty(k)) nerr[k] = err[k]\<close>\<close>

definition copy_own :: "cb_value \<Rightarrow> string \<Rightarrow> object" where
  "copy_own err k = (case get_own err k of Some v \<Rightarrow> [(k, v)] | None \<Rightarrow> [])"

definition make_nerr :: "nat \<Rightarrow> cb_value \<Rightarrow> cb_value" where
  "make_nerr pid err =
     Obj ([(''stack'', Plain (JStr (show_nat pid @ '': '' @ to_string (get_own err ''stack''))))]
          @ copy_own err ''code'' @ copy_own err ''message''
          @ copy_own err ''stdout'' @ copy_own err ''stderr'')"

text \<open>
  The own enumerable properties \<open>Object.keys(meta || {})\<close> walks (ECMAScript 2015: a
  string has its indices, the other primitives have none).
\<close>

definition own_entries :: "cb_value \<Rightarrow> object" where
  "own_entries v =
     (case v of
        Obj kvs \<Rightarrow> kvs
      | Prim (Str s) \<Rightarrow> zip (map show_nat [0..<length s]) (map (\<lambda>c. Plain (JStr [c])) s)
      | Prim p \<Rightarrow> [])"

definition of_option :: "'a option \<Rightarrow> 'a outcome" where
  "of_option r = (case r of Some x \<Rightarrow> Done x | None \<Rightarrow> Loops)"

definition with_token :: "(token \<times> worker) option \<Rightarrow> (val \<times> worker) outcome" where
  "with_token r = (case r of Some (tk, w) \<Rightarrow> Done (Tok tk, w) | None \<Rightarrow> Loops)"

text \<open>
  The \<open>switch (key)\<close>: what goes into the projection for a key whose value \<open>v\<close> is
  not \<open>undefined\<close> or \<open>null\<close>. Under one of the five names the value is a resource
  (an API object under \<open>api\<close>); any other value there is outside this model.
\<close>

definition store_by_key :: "string \<Rightarrow> val \<Rightarrow> worker \<Rightarrow> (val \<times> worker) outcome" where
  "store_by_key key v w =
     (if key = ''stream'' then
        (case v of Resource a \<Rightarrow> with_token (storeStream a w) | _ \<Rightarrow> Unmodelled)
      else if key = ''process'' then
        (case v of Resource a \<Rightarrow> of_option (storeProcess a False w) | _ \<Rightarrow> Unmodelled)
      else if key = ''pty'' then
        (case v of Resource a \<Rightarrow> of_option (storePty a w) | _ \<Rightarrow> Unmodelled)
      else if key = ''watcher'' then
        (case v of Resource a \<Rightarrow> with_token (storeWatcher a w) | _ \<Rightarrow> Unmodelled)
      else if key = ''api'' then
        (case v of Api_obj x \<Rightarrow> Done (storeApi x w) | _ \<Rightarrow> Unmodelled)
      else Done (v, w))"

fun project :: "object \<Rightarrow> string list \<Rightarrow> object \<Rightarrow> worker \<Rightarrow> (object \<times> worker) outcome" where
  "project m [] tk w = Done (tk, w)"
| "project m (key # keys) tk w =
     (if nullish (map_of m key) then project m keys tk w
      else
        (case map_of m key of
           None \<Rightarrow> project m keys tk w
         | Some v \<Rightarrow>
            (case store_by_key key v w of
               Done (tv, w') \<Rightarrow> project m keys (AList.update key tv tk) w'
             | Loops \<Rightarrow> Loops
             | Throws \<Rightarrow> Throws
             | Unmodelled \<Rightarrow> Unmodelled)))"

text \<open>
  \<open>processCallback(err, meta, callback)\<close>: the arguments \<open>callback\<close> is called with,
  and the worker afterwards.
\<close>

definition processCallback :: "cb_value \<Rightarrow> cb_value \<Rightarrow> worker \<Rightarrow> (cb_value list \<times> worker) outcome" where
  "processCallback err m w =
     (if truthy_cb err \<and> \<not> truthy_cb m then Done ([make_nerr (server_pid w) err], w)
      else
        and_then (project (own_entries m) (map fst (own_entries m)) [] w) (\<lambda>(tk, w').
          Done ([if truthy_cb err then make_nerr (server_pid w) err else Prim Undefined, Obj tk], w')))"

subsection \<open>call, wrapPingCall and ping\<close>

definition wrapPingCall :: "string \<Rightarrow> string \<Rightarrow> rpc_arg list \<Rightarrow> int \<Rightarrow> rpc_arg list" where
  "wrapPingCall name fnName args now =
     (if name = ''ping'' \<and> fnName = ''ping'' \<and> length args = 2
         \<and> args ! 0 = Val (Prim (Str ''serverTime''))
      then [args ! 0, Fn (Ping_wrapper now (args ! 1))]
      else args)"

definition wrap_last :: "rpc_arg list \<Rightarrow> rpc_arg list" where
  "wrap_last args =
     (if args = [] then args
      else case last args of
             Fn cb \<Rightarrow> butlast args @ [Fn (Marshal_wrapper cb)]
           | Val v \<Rightarrow> args)"

text \<open>
  \<open>call(name, fnName, args)\<close> at the clock reading \<open>now\<close>; the call of the API's method
  is an effect.
\<close>

definition call :: "string \<Rightarrow> string \<Rightarrow> rpc_arg list \<Rightarrow> int \<Rightarrow> worker \<Rightarrow> worker" where
  "call name fnName args now w =
     (case map_of (apis w) name of
        None \<Rightarrow> w
      | Some x \<Rightarrow> log (Api_apply name fnName (wrap_last (wrapPingCall name fnName args now))) w)"

fun is_object :: "cb_value \<Rightarrow> bool" where
  "is_object (Obj kvs) = True"
| "is_object (Prim p) = False"

text \<open>
  A function value called with \<open>args\<close> at the clock reading \<open>now\<close>. A callback of the
  peer is delivered; the closure of \<open>wrapPingCall\<close> and the closure of \<open>call\<close> run
  their bodies. Calling what is not a function throws.
\<close>

fun invoke :: "callback \<Rightarrow> cb_value list \<Rightarrow> int \<Rightarrow> worker \<Rightarrow> worker outcome"
  and invoke_arg :: "rpc_arg \<Rightarrow> cb_value list \<Rightarrow> int \<Rightarrow> worker \<Rightarrow> worker outcome" where
  "invoke (Peer_cb k) args now w = Done (log (Deliver k args) w)"
| "invoke (Ping_wrapper start cb) args now w =
     (if truthy_cb (arg 0 args) then invoke_arg cb [arg 0 args] now w
      else invoke_arg cb [Prim Null, Obj [(''serverTime'', Plain (JNum (now - start)))]] now w)"
| "invoke (Marshal_wrapper cb) args now w =
     (if truthy_cb (arg 0 args) \<or> (truthy_cb (arg 1 args) \<and> is_object (arg 1 args)) then
        (case processCallback (arg 0 args) (arg 1 args) w of
           Done (args', w') \<Rightarrow> invoke cb args' now w'
         | Loops \<Rightarrow> Loops
         | Throws \<Rightarrow> Throws
         | Unmodelled \<Rightarrow> Unmodelled)
      else invoke cb [arg 0 args, arg 1 args] now w)"
| "invoke_arg (Fn cb) args now w = invoke cb args now w"
| "invoke_arg (Val v) args now w = Throws"

definition ping :: "rpc_arg \<Rightarrow> int \<Rightarrow> worker \<Rightarrow> worker outcome" where
  "ping callback now w = invoke_arg callback [] now w"

subsection \<open>Reference points for the allocator\<close>

text \<open>
  The slot the claim describes: the first free one in the ring of 10000, going round
  from \<open>cursor + 1\<close>; none when all 10000 are taken.
\<close>

definition first_free :: "'v registry \<Rightarrow> nat \<Rightarrow> nat option" where
  "first_free d cursor =
     find (\<lambda>i. \<not> hasOwnProperty d i) (map (\<lambda>k. (cursor + 1 + k) mod 10000) [0..<10000])"

text \<open>A fresh worker over resources nothing has touched, and a peer with no functions.\<close>

definition silent_peer :: remote_api where
  "silent_peer = \<lparr>peer_functions = [], onData_returns_false = (\<lambda>i chunk. False)\<rparr>"

definition fresh_worker :: worker where
  "fresh_worker = new_Worker (\<lambda>a. new_resource) silent_peer 4242"

text \<open>The resources at addresses \<open>0\<close> to \<open>n - 1\<close> stored as streams, one after the other.\<close>

fun store_all :: "nat \<Rightarrow> worker \<Rightarrow> worker option" where
  "store_all 0 w = Some w"
| "store_all (Suc n) w =
     (case store_all n w of
        None \<Rightarrow> None
      | Some w1 \<Rightarrow> map_option snd (storeStream n w1))"

text \<open>
  A worker whose cursors are back at 1 after a round of the ring while the streams 2
  and 3 and the watcher 2 of the first round are still registered.
\<close>

definition busy_worker :: worker where
  "busy_worker = fresh_worker\<lparr>streams := [(2, 10), (3, 11)], watchers := [(2, 12)]\<rparr>"

subsection \<open>Inputs of the scenarios of the worker\<close>

text \<open>
  A process with pid 7 at address 20, its stdin at address 21, its stdout and stderr at
  addresses 22 and 23; a process with pid 8 at address 30, with the addresses 31, 32
  and 33; every other address holds a readable stream that can be paused and resumed.
\<close>

definition process_heap :: "addr \<Rightarrow> resource" where
  "process_heap a =
     (if a = 20 then new_resource\<lparr>r_pid := 7, r_stdin := 21, r_stdout := 22, r_stderr := 23\<rparr>
      else if a = 30 then new_resource\<lparr>r_pid := 8, r_stdin := 31, r_stdout := 32, r_stderr := 33\<rparr>
      else if a = 21 \<or> a = 31 then new_resource\<lparr>r_writable := True\<rparr>
      else new_resource\<lparr>r_readable := True, r_own_readable := True, r_pause := Some a,
             r_resume := Some a\<rparr>)"

definition process_worker :: worker where
  "process_worker = new_Worker process_heap silent_peer 4242"

text \<open>
  Scenario S6: a peer that has every callback and answers \<open>false\<close> to \<open>onData\<close>, and
  the worker after the stream at address 2 was stored.
\<close>

definition blocking_peer :: remote_api where
  "blocking_peer =
     \<lparr>peer_functions = [''onData'', ''onEnd'', ''onClose'', ''onError'', ''onExit'',
                          ''onProcessClose'', ''onPtyKill'', ''onChange''],
      onData_returns_false = (\<lambda>i chunk. True)\<rparr>"

definition streaming_worker :: worker where
  "streaming_worker =
     (case storeStream 2 (new_Worker process_heap blocking_peer 4242) of
        Some (tk, w) \<Rightarrow> w
      | None \<Rightarrow> new_Worker process_heap blocking_peer 4242)"

text \<open>
  A session: the API \<open>ping\<close> is stored, the process 7 is stored and unreffed, the
  process 8 is stored, the stream at address 4 is stored, the peer's stream 9 gets a
  proxy, and the watcher at address 5 is stored.
\<close>

definition ping_api :: api where
  "ping_api = \<lparr>api_name = ''ping'', api_names = [''ping'']\<rparr>"

definition session_worker :: worker where
  "session_worker =
     (let w0 = snd (storeApi ping_api (new_Worker process_heap blocking_peer 4242)) in
      case storeProcess 20 False w0 of
        None \<Rightarrow> w0
      | Some (v1, w1) \<Rightarrow>
         (case storeProcess 30 False (unref 7 w1) of
            None \<Rightarrow> w1
          | Some (v2, w2) \<Rightarrow>
             (case storeStream 4 w2 of
                None \<Rightarrow> w2
              | Some (t3, w3) \<Rightarrow>
                 (case storeWatcher 5
                         (snd (makeStreamProxy (Token (Some 9) None (Some True) None None None None) w3)) of
                    None \<Rightarrow> w3
                  | Some (t4, w4) \<Rightarrow> w4))))"

text \<open>
  An error of the VFS with a stack, a code and a property the envelope does not carry;
  and the result of scenario S6 with a key whose value is \<open>undefined\<close>.
\<close>

definition enoent :: cb_value where
  "enoent = Obj [(''stack'', Plain (JStr ''Error: gone'')), (''code'', Plain (JStr ''ENOENT'')),
                 (''errno'', Plain (JNum 2))]"

definition readfile_meta :: cb_value where
  "readfile_meta = Obj [(''stream'', Resource 2), (''mime'', Plain (JStr ''x'')), (''etag'', Undef)]"

subsection \<open>Reference points for flow control\<close>

text \<open>
  The registered streams that are readable and have a \<open>resume\<close>, and the registered
  proxy streams that are writable, each in the order of \<open>Object.keys\<close>.
\<close>

definition resumable :: "worker \<Rightarrow> addr list" where
  "resumable w =
     concat (map
       (\<lambda>i. case map_of (streams w) i of
              Some a \<Rightarrow> if r_readable (heap w a) \<and> r_resume (heap w a) \<noteq> None then [a] else []
            | None \<Rightarrow> [])
       (object_keys (streams w)))"

definition writable_proxies :: "worker \<Rightarrow> proxy list" where
  "writable_proxies w =
     concat (map
       (\<lambda>i. case map_of (proxyStreams w) i of
              Some p \<Rightarrow> if p_writable p then [p] else []
            | None \<Rightarrow> [])
       (object_keys (proxyStreams w)))"

text \<open>What one \<open>data\<close> listener does to the outside when it runs on stream \<open>a\<close>.\<close>

definition data_effects :: "worker \<Rightarrow> addr \<Rightarrow> val \<Rightarrow> listener \<Rightarrow> effect list" where
  "data_effects w a chunk l =
     (case l of
        On_data i \<Rightarrow>
          if ''onData'' \<in> set (peer_functions (remote w)) then
            Remote ''onData'' [num i, chunk]
              # (if onData_returns_false (remote w) i chunk \<and> r_pause (heap w a) \<noteq> None
                 then [Call a ''pause'' []] else [])
          else []
      | _ \<Rightarrow> [])"

subsection \<open>Reference points for the teardown\<close>

text \<open>
  What a \<open>close\<close> event on resource \<open>a\<close> does through the worker's listeners: the
  stream ids it deletes from \<open>streams\<close> (the id of each \<open>close\<close> listener of
  \<open>storeStream\<close>, and the stdio ids for the \<open>close\<close> listener of a process stored with
  its streams), the pids it deletes from \<open>processes\<close>, and what it tells the peer.
\<close>

definition stdio_ids :: "worker \<Rightarrow> addr \<Rightarrow> nat list" where
  "stdio_ids w a =
     concat (map (\<lambda>s. case r_id (heap w s) of Some i \<Rightarrow> [i] | None \<Rightarrow> [])
       [r_stdout (heap w a), r_stderr (heap w a), r_stdin (heap w a)])"

fun listener_close_ids :: "worker \<Rightarrow> addr \<Rightarrow> listener \<Rightarrow> nat list" where
  "listener_close_ids w a (On_close i) = [i]"
| "listener_close_ids w a (On_process_close pid onlyPid) = (if onlyPid then [] else stdio_ids w a)"
| "listener_close_ids w a l = []"

definition close_ids :: "worker \<Rightarrow> addr \<Rightarrow> nat list" where
  "close_ids w a = concat (map (listener_close_ids w a) (r_listeners (heap w a)))"

fun listener_close_pids :: "listener \<Rightarrow> nat list" where
  "listener_close_pids (On_process_close pid onlyPid) = [pid]"
| "listener_close_pids l = []"

fun listener_close_effects :: "worker \<Rightarrow> val list \<Rightarrow> listener \<Rightarrow> effect list" where
  "listener_close_effects w args (On_close i) =
     (if ''onClose'' \<in> set (peer_functions (remote w)) then [Remote ''onClose'' [num i]] else [])"
| "listener_close_effects w args (On_process_close pid onlyPid) =
     (if ''onProcessClose'' \<in> set (peer_functions (remote w))
      then [Remote ''onProcessClose'' [num pid, argv 0 args, argv 1 args]] else [])"
| "listener_close_effects w args l = []"

definition close_effects :: "worker \<Rightarrow> addr \<Rightarrow> val list \<Rightarrow> effect list" where
  "close_effects w a args = concat (map (listener_close_effects w args) (r_listeners (heap w a)))"

text \<open>
  The state of the registry of streams the teardown relies on: a registered stream
  carries the \<open>close\<close> listener of its own id, and its \<open>close\<close> listeners delete no
  other registered stream.
\<close>

definition close_listeners_ok :: "worker \<Rightarrow> bool" where
  "close_listeners_ok w \<longleftrightarrow>
     (\<forall>i \<in> set (object_keys (streams w)).
        case map_of (streams w) i of
          None \<Rightarrow> True
        | Some a \<Rightarrow>
            i \<in> set (close_ids w a)
            \<and> (\<forall>j \<in> set (close_ids w a). j = i \<or> map_of (streams w) j = None))"

text \<open>
  What \<open>storeStream\<close> alone leaves on a stream: listeners of the stream's own id, and
  none of those a process stored with its stdio streams gets.
\<close>

fun deletes_stdio :: "listener \<Rightarrow> bool" where
  "deletes_stdio (On_process_close pid onlyPid) = (\<not> onlyPid)"
| "deletes_stdio l = False"

definition own_close_only :: "worker \<Rightarrow> bool" where
  "own_close_only w \<longleftrightarrow>
     (\<forall>i \<in> set (object_keys (streams w)).
        case map_of (streams w) i of
          None \<Rightarrow> True
        | Some a \<Rightarrow>
            (\<forall>l \<in> set (r_listeners (heap w a)). \<not> deletes_stdio l) \<and> close_ids w a = [i])"

text \<open>
  The four parts of the trace of a teardown, each in the order of \<open>Object.keys\<close>: the
  kill of every process that is not unreffed, \<open>close(err)\<close> on every stream with what
  its listeners tell the peer, \<open>close\<close> on every proxy stream, \<open>close()\<close> on every
  watcher.
\<close>

definition kill_effect :: "worker \<Rightarrow> addr \<Rightarrow> effect" where
  "kill_effect w a =
     (case r_kill (heap w a) of
        Killtree_of pid \<Rightarrow> Vfs_killtree pid Undef
      | Native_kill \<Rightarrow> Call a ''kill'' [])"

definition kill_trace :: "worker \<Rightarrow> nat \<Rightarrow> effect list" where
  "kill_trace w pid =
     (case map_of (processes w) pid of
        Some a \<Rightarrow> if r_unreffed (heap w a) then [] else [kill_effect w a]
      | None \<Rightarrow> [])"

definition kills :: "worker \<Rightarrow> effect list" where
  "kills w = concat (map (kill_trace w) (object_keys (processes w)))"

definition stream_close_trace :: "worker \<Rightarrow> val \<Rightarrow> nat \<Rightarrow> effect list" where
  "stream_close_trace w err i =
     (case map_of (streams w) i of
        Some a \<Rightarrow> Emit a ''close'' [err] # close_effects w a [err]
      | None \<Rightarrow> [])"

definition stream_closes :: "worker \<Rightarrow> val \<Rightarrow> effect list" where
  "stream_closes w err = concat (map (stream_close_trace w err) (object_keys (streams w)))"

definition proxy_close_trace :: "worker \<Rightarrow> nat \<Rightarrow> effect list" where
  "proxy_close_trace w i =
     (case map_of (proxyStreams w) i of
        Some p \<Rightarrow> [Proxy_emit (p_obj p) ''close'']
      | None \<Rightarrow> [])"

definition proxy_closes :: "worker \<Rightarrow> effect list" where
  "proxy_closes w = concat (map (proxy_close_trace w) (object_keys (proxyStreams w)))"

definition watcher_close_trace :: "worker \<Rightarrow> nat \<Rightarrow> effect list" where
  "watcher_close_trace w i =
     (case map_of (watchers w) i of
        Some a \<Rightarrow> [Call a ''close'' []]
      | None \<Rightarrow> [])"

definition watcher_closes :: "worker \<Rightarrow> effect list" where
  "watcher_closes w = concat (map (watcher_close_trace w) (object_keys (watchers w)))"

text \<open>The error of the teardown: the one given, or \<open>EDISCONNECT\<close>.\<close>

definition teardown_error :: "val \<Rightarrow> val" where
  "teardown_error err0 = (if \<not> truthy_val err0 then EDISCONNECT else err0)"

subsection \<open>Reference points for the marshaller\<close>

text \<open>
  What \<open>processCallback\<close> needs to return. Under \<open>stream\<close>, \<open>process\<close>, \<open>pty\<close> and
  \<open>watcher\<close> the value is a resource, under \<open>api\<close> an API object (a key whose value is
  \<open>undefined\<close> or \<open>null\<close> is skipped whatever its name). And the id allocator must find
  a free slot each time it runs: a stream and a pty take one stream id, a process three
  (its stdio streams), a watcher one watcher id.
\<close>

definition right_kind :: "string \<Rightarrow> val \<Rightarrow> bool" where
  "right_kind key v =
     (if key \<in> {''stream'', ''process'', ''pty'', ''watcher''} then
        (case v of Resource a \<Rightarrow> True | _ \<Rightarrow> False)
      else if key = ''api'' then (case v of Api_obj x \<Rightarrow> True | _ \<Rightarrow> False)
      else True)"

definition kinds_ok :: "object \<Rightarrow> bool" where
  "kinds_ok m \<longleftrightarrow> (\<forall>(k, v) \<in> set m. nullish (Some v) \<or> right_kind k v)"

definition stream_slots :: "string list \<Rightarrow> nat" where
  "stream_slots ks =
     (if ''stream'' \<in> set ks then 1 else 0) + (if ''process'' \<in> set ks then 3 else 0)
       + (if ''pty'' \<in> set ks then 1 else 0)"

definition watcher_slots :: "string list \<Rightarrow> nat" where
  "watcher_slots ks = (if ''watcher'' \<in> set ks then 1 else 0)"

subsection \<open>The reply of a timed ping\<close>


section \<open>Properties of the HTTP gateway\<close>

subsection \<open>The error handler\<close>

lemma table_status_numeric:
  "numeric_status c = Some n \<Longrightarrow> table_status c = n"
  by (cases c rule: numeric_status.cases) (auto simp: isValidStatusCode_def split: if_splits)

lemma table_status_other:
  "numeric_status c = None \<Longrightarrow>
   table_status c =
     (if c = Some (JStr ''EBADREQUEST'') then 400
      else if c = Some (JStr ''EACCES'') then 403
      else if c = Some (JStr ''ENOENT'') then 200
      else if c = Some (JStr ''ENOTREADY'') then 503
      else if c = Some (JStr ''EISDIR'') then 503
      else 500)"
  by (cases c rule: table_status.cases) (auto simp: isValidStatusCode_def split: if_splits)

text \<open>
  Claim C6, as the code has it. With the headers not yet sent, the status is the
  caller's explicit \<open>code\<close> when that is given and not 0, and otherwise the status of
  the table (a numeric \<open>err.code\<close> in 100..999 itself, \<open>EBADREQUEST\<close> 400, \<open>EACCES\<close> 403,
  \<open>ENOENT\<close> 200, \<open>ENOTREADY\<close> and \<open>EISDIR\<close> 503, anything else 500); the body is
  \<open>err.message || err.toString()\<close> and a newline, with \<open>Content-Type: text/x-error\<close>.
  With the headers already sent nothing is written and nothing is changed: the response
  is only ended.
\<close>

theorem errorHandler_response:
  "statusCode (errorHandler res err code) =
     (if headersSent res then statusCode res
      else case code of
             Some c \<Rightarrow> if c \<noteq> 0 then c else table_status (err_code err)
           | None \<Rightarrow> table_status (err_code err))
   \<and> body (errorHandler res err code) =
       (if headersSent res then body res else body res @ error_body err)
   \<and> getHeader (errorHandler res err code) ''Content-Type'' =
       (if headersSent res then getHeader res ''Content-Type'' else Some (HStr ''text/x-error''))
   \<and> ended (errorHandler res err code)"
proof (cases "headersSent res")
  case True
  then show ?thesis by (simp add: errorHandler_def res_end_def getHeader_def)
next
  case False
  show ?thesis
  proof (cases "numeric_status (err_code err)")
    case None
    with False show ?thesis
      unfolding errorHandler_def Let_def
      by (simp add: table_status_other res_end_def setHeader_def getHeader_def error_body_def
            update_conv' split: option.split)
  next
    case (Some n)
    with False show ?thesis
      unfolding errorHandler_def Let_def
      by (simp add: table_status_numeric res_end_def setHeader_def getHeader_def error_body_def
            update_conv' split: option.split)
  qed
qed

text \<open>
  Three rows of it: \<open>ENOENT\<close> answers 200 with the message as body, a numeric code 404
  answers 404, and an error after the headers were sent writes nothing.
\<close>

theorem errorHandler_response_witness:
  "statusCode (errorHandler new_response
      \<lparr>err_code = Some (JStr ''ENOENT''), err_message = Some ''no such file'',
       err_toString = ''Error: no such file''\<rparr> None) = 200
   \<and> body (errorHandler new_response
      \<lparr>err_code = Some (JStr ''ENOENT''), err_message = Some ''no such file'',
       err_toString = ''Error: no such file''\<rparr> None) = ''no such file\<newline>''
   \<and> statusCode (errorHandler new_response
      \<lparr>err_code = Some (JNum 404), err_message = None, err_toString = ''gone''\<rparr> None) = 404
   \<and> body (errorHandler (new_response\<lparr>headersSent := True\<rparr>) (string_error ''late'') None) = []"
  using errorHandler_response [of new_response
      "\<lparr>err_code = Some (JStr ''ENOENT''), err_message = Some ''no such file'',
        err_toString = ''Error: no such file''\<rparr>" None]
    errorHandler_response [of new_response
      "\<lparr>err_code = Some (JNum 404), err_message = None, err_toString = ''gone''\<rparr>" None]
    errorHandler_response [of "new_response\<lparr>headersSent := True\<rparr>" "string_error ''late''" None]
  by (simp add: new_response_def error_body_def)

text \<open>
  The claim as it was written gives every error without a known code the status 500.
  The POST branch calls \<open>abort(new Error("Missing Content-Type header"), 400)\<close>: this
  error has no code, the table says 500, and the response is 400.
\<close>

theorem errorHandler_explicit_code_counterexample:
  "\<not> headersSent new_response
   \<and> err_code (new_Error ''Missing Content-Type header'') = None
   \<and> table_status (err_code (new_Error ''Missing Content-Type header'')) = 500
   \<and> statusCode (errorHandler new_response (new_Error ''Missing Content-Type header'') (Some 400)) = 400"
  by (simp add: errorHandler_def new_response_def new_Error_def res_end_def setHeader_def)

subsection \<open>The oversized stream\<close>

lemma set_content_headers_keeps:
  "headersSent (set_content_headers mo options m res) = headersSent res"
  "statusCode (set_content_headers mo options m res) = statusCode res"
  "body (set_content_headers mo options m res) = body res"
  by (simp_all add: set_content_headers_def setHeader_def Let_def split: option.split)

lemma show_int_9MB: "show_int 9437184 = ''9437184''"
  by (simp add: show_int_def show_nat.simps digit_def)

text \<open>
  Claim C8, what the code does. A result with a stream and a size above 8 MiB is
  answered with status 513 and the text of the claim. The branch returns before the
  stream is touched: no listener is put on it, it is not piped, and the listener of the
  request's \<open>close\<close> event, the one place that calls \<open>destroy()\<close>, is not registered,
  so the gateway never destroys the oversized stream.
\<close>

theorem onGet_oversized:
  assumes "meta_stream m = Some s" and "meta_size m = Some n" and "n > 8 * 1024 * 1024"
    and "meta_rangeNotSatisfiable m = None" and "\<not> headersSent res"
  shows "let g = onGet errorHandler mo now options tryAgain res (Inr m) in
           statusCode (g_res g) = 513
           \<and> body (g_res g) =
               body res @ ''File size is bigger than allowed (8MB). Size is '' @ show_int n
                 @ '' bytes\<newline>''
           \<and> g_stream_uses g = []
           \<and> \<not> g_close_listener g
           \<and> (\<forall>closes. calls_after_get g s closes = [])"
  using assms
  unfolding onGet_def Let_def
  by (simp add: eight_MB_def finished_def errorHandler_def set_content_headers_keeps
        setHeader_def res_end_def string_error_def calls_after_get_def show_num_def
        split: option.split)

text \<open>Scenario S4 itself: 9 MiB, and the client going away afterwards.\<close>

theorem onGet_oversized_witness:
  "let g = onGet errorHandler no_mount_options ''Tue, 03 Nov 2026 00:00:00 GMT'' plain_get False
             new_response (Inr oversized_meta) in
     statusCode (g_res g) = 513
     \<and> body (g_res g) = ''File size is bigger than allowed (8MB). Size is 9437184 bytes\<newline>''
     \<and> g_stream_uses g = []
     \<and> \<not> g_close_listener g
     \<and> calls_after_get g oversized_stream True = []"
  using onGet_oversized [of oversized_meta oversized_stream 9437184 new_response
      no_mount_options "''Tue, 03 Nov 2026 00:00:00 GMT''" plain_get False]
  by (simp add: oversized_meta_def new_response_def show_int_9MB Let_def)

text \<open>
  A stream within the limit does get the listener, and a client that goes away then
  destroys it: the sibling path of the same function.
\<close>

lemma onGet_stream_within_limit:
  assumes "meta_stream m = Some s" and "meta_size m = Some n" and "n \<le> 8 * 1024 * 1024"
    and "meta_rangeNotSatisfiable m = None" and "src_readable s"
  shows "let g = onGet eh mo now options tryAgain res (Inr m) in
           g_close_listener g \<and> calls_after_get g s True = [Input_destroy]"
  using assms
  unfolding onGet_def Let_def
  by (simp add: eight_MB_def calls_after_get_def on_req_close_def)

subsection \<open>The POST command\<close>

text \<open>
  For every parsed body other than \<open>null\<close> the selection is the one of claim C10: the
  first truthy field of \<open>renameFrom\<close>, \<open>copyFrom\<close>, \<open>linkTo\<close>, \<open>metadata\<close> decides the
  command, a falsy field counts as absent, and with none truthy the handler aborts with
  the \<open>Invalid command\<close> error and calls nothing.
\<close>

lemma post_on_end_selects:
  assumes "JSON_parse msg data = Some (Inr message)" and "message \<noteq> JNull"
  shows "post_on_end (JSON_parse msg) path data =
           (case first_truthy message of
              Some (command, options) \<Rightarrow> Command command path options
            | None \<Rightarrow> Abort (new_Error (''Invalid command in POST '' @ data)))"
  using assms by (cases message) (simp_all add: post_on_end_def first_truthy_def)

lemma parse_JSON_samples:
  "parse_JSON ''{\"metadata\":{},\"copyFrom\":\"/b\",\"renameFrom\":\"\"}''
     = Parsed (JObj [(''metadata'', JObj []), (''copyFrom'', JStr ''/b''), (''renameFrom'', JStr [])])"
  "parse_JSON ''{renameFrom: 1}'' = Syntax_error"
  "parse_JSON ''{\"renameFrom\": 1.5}'' = Not_modelled"
  "parse_JSON ''null'' = Parsed JNull"
  by code_simp+

lemma post_on_end_earliest_wins:
  "post_on_end (JSON_parse msg) ''/a'' ''{\"metadata\":{},\"copyFrom\":\"/b\",\"renameFrom\":\"\"}''
     = Command Vfs_copy ''/a'' (no_options\<lparr>opt_from := Some (JStr ''/b'')\<rparr>)"
  by (simp add: post_on_end_def JSON_parse_def parse_JSON_samples)

lemma post_on_end_syntax_error:
  "post_on_end (JSON_parse msg) ''/a'' ''{renameFrom: 1}''
     = Abort (syntax_error (msg ''{renameFrom: 1}''))"
  by (simp add: post_on_end_def JSON_parse_def parse_JSON_samples)

lemma post_on_end_not_modelled:
  "post_on_end (JSON_parse msg) ''/a'' ''{\"renameFrom\": 1.5}'' = Body_not_modelled"
  by (simp add: post_on_end_def JSON_parse_def parse_JSON_samples)

text \<open>
  Claim C10 at the body \<open>null\<close>. It is valid JSON, \<open>JSON.parse\<close> returns \<open>null\<close>, no
  field is truthy, and the claim promises the \<open>Invalid command\<close> error. The code reads
  \<open>message.renameFrom\<close> outside the \<open>try\<close> block and throws a \<open>TypeError\<close>: there is no
  response at all.
\<close>

theorem post_on_end_null_body:
  "parse_JSON ''null'' = Parsed JNull
   \<and> post_on_end (JSON_parse msg) ''/a'' ''null'' = Uncaught TypeError"
  by (simp add: post_on_end_def JSON_parse_def parse_JSON_samples)

subsection \<open>Printing and parsing JSON\<close>

lemma digit_facts:
  assumes "d < 10"
  shows "is_digit (digit d)" and "(of_char (digit d) :: nat) - 48 = d"
    and "(digit d = CHR ''0'') = (d = 0)"
proof -
  from assms have d: "d \<in> {0, 1, 2, 3, 4, 5, 6, 7, 8, 9}" by simp arith
  show "is_digit (digit d)" using d by (auto simp: digit_def is_digit_def)
  show "(of_char (digit d) :: nat) - 48 = d" using d by (auto simp: digit_def)
  show "(digit d = CHR ''0'') = (d = 0)" using d by (auto simp: digit_def)
qed

lemma is_digit_not_special:
  assumes "is_digit c"
  shows "\<not> is_ws c" "c \<noteq> CHR ''n''" "c \<noteq> CHR ''t''" "c \<noteq> CHR ''f''" "c \<noteq> CHR 0x22"
    "c \<noteq> CHR ''[''" "c \<noteq> CHR ''{''" "c \<noteq> CHR '']''" "c \<noteq> CHR ''-''"
  using assms by (auto simp: is_digit_def is_ws_def)

lemma number_start:
  "c = CHR ''-'' \<or> is_digit c \<Longrightarrow>
   \<not> is_ws c \<and> c \<noteq> CHR ''n'' \<and> c \<noteq> CHR ''t'' \<and> c \<noteq> CHR ''f'' \<and> c \<noteq> CHR 0x22
   \<and> c \<noteq> CHR ''['' \<and> c \<noteq> CHR ''{'' \<and> c \<noteq> CHR '']''"
  apply (erule disjE)
   apply (simp add: is_ws_def)
  apply (simp add: is_digit_not_special)
  done

lemma show_nat_digits: "c \<in> set (show_nat n) \<Longrightarrow> is_digit c"
proof (induction n rule: show_nat.induct)
  case (1 n)
  show ?case
  proof (cases "n < 10")
    case True
    with 1(2) show ?thesis by (simp add: show_nat.simps [of n] digit_facts)
  next
    case False
    with 1 show ?thesis by (auto simp: show_nat.simps [of n] digit_facts)
  qed
qed

lemma digits_val_snoc: "digits_val (ds @ [c]) = 10 * digits_val ds + (of_char c - 48)"
  by (simp add: digits_val_def)

lemma digits_val_single: "digits_val [c] = of_char c - 48"
  by (simp add: digits_val_def)

lemma digits_val_show_nat: "digits_val (show_nat n) = n"
proof (induction n rule: show_nat.induct)
  case (1 n)
  show ?case
  proof (cases "n < 10")
    case True
    then show ?thesis by (simp add: show_nat.simps [of n] digits_val_single digit_facts)
  next
    case False
    with 1 show ?thesis
      by (simp add: show_nat.simps [of n] digits_val_snoc digit_facts)
  qed
qed

lemma show_nat_nonempty: "show_nat n \<noteq> []"
  by (simp add: show_nat.simps [of n])

lemma hd_show_nat: "0 < n \<Longrightarrow> hd (show_nat n) \<noteq> CHR ''0''"
proof (induction n rule: show_nat.induct)
  case (1 n)
  show ?case
  proof (cases "n < 10")
    case True
    with 1(2) show ?thesis by (simp add: show_nat.simps [of n] digit_facts)
  next
    case False
    then have "0 < n div 10" by simp
    with 1(1) False have "hd (show_nat (n div 10)) \<noteq> CHR ''0''" by simp
    with False show ?thesis by (simp add: show_nat.simps [of n] show_nat_nonempty)
  qed
qed

lemma show_nat_zero: "show_nat 0 = ''0''"
  by (simp add: show_nat.simps [of 0] digit_def)

lemma no_leading_zero: "\<not> (hd (show_nat n) = CHR ''0'' \<and> 1 < length (show_nat n))"
  by (cases "n = 0") (simp_all add: show_nat_zero hd_show_nat)

lemma read_digits:
  assumes "terminated rest"
  shows "takeWhile is_digit (show_nat n @ rest) = show_nat n"
    and "dropWhile is_digit (show_nat n @ rest) = rest"
proof -
  from assms have r: "takeWhile is_digit rest = []" "dropWhile is_digit rest = rest"
    by (cases rest; simp add: terminated_def)+
  show "takeWhile is_digit (show_nat n @ rest) = show_nat n"
    using r by (simp add: takeWhile_append2 show_nat_digits)
  show "dropWhile is_digit (show_nat n @ rest) = rest"
    using r by (simp add: dropWhile_append2 show_nat_digits)
qed

lemma hd_show_nat_digit: "is_digit (hd (show_nat n))"
  using show_nat_nonempty [of n] show_nat_digits [of "hd (show_nat n)" n] by simp

lemma parse_number_show_int:
  assumes "terminated rest" and "safe_integer i"
  shows "parse_number (show_int i @ rest) = Parsed (JNum i, rest)"
proof -
  have t: "\<not> (rest \<noteq> [] \<and> hd rest = CHR ''.'')"
    "\<not> (rest \<noteq> [] \<and> hd rest \<in> {CHR ''e'', CHR ''E''})"
    using assms(1) by (auto simp: terminated_def)
  show ?thesis
  proof (cases "i < 0")
    case True
    then have "nat (- i) \<noteq> 0" "safe_integer (int (nat (- i)))" "- int (nat (- i)) = i"
      using assms(2) by (simp_all add: safe_integer_def)
    with True show ?thesis
      using t no_leading_zero [of "nat (- i)"]
      by (simp add: parse_number_def show_int_def read_digits [OF assms(1)] show_nat_nonempty
          digits_val_show_nat Let_def)
  next
    case False
    have "hd (show_nat (nat i)) \<noteq> CHR ''-''"
      using hd_show_nat_digit [of "nat i"] by (rule is_digit_not_special(9))
    moreover from False have "safe_integer (int (nat i))" "int (nat i) = i"
      using assms(2) by simp_all
    ultimately show ?thesis
      using False t no_leading_zero [of "nat i"]
      by (simp add: parse_number_def show_int_def read_digits [OF assms(1)] show_nat_nonempty
          digits_val_show_nat Let_def)
  qed
qed

lemma number_head: "\<exists>c cs. show_int i = c # cs \<and> (c = CHR ''-'' \<or> is_digit c)"
proof (cases "i < 0")
  case True
  then show ?thesis by (simp add: show_int_def)
next
  case False
  obtain c cs where "show_nat (nat i) = c # cs"
    using show_nat_nonempty [of "nat i"] by (cases "show_nat (nat i)") auto
  moreover from this have "is_digit c" using hd_show_nat_digit [of "nat i"] by simp
  ultimately show ?thesis using False by (simp add: show_int_def)
qed

lemma hex_val_hex_digit: "d < 16 \<Longrightarrow> hex_val (hex_digit d) = Some d"
proof -
  assume "d < 16"
  then have "d \<in> {0, 1, 2, 3, 4, 5, 6, 7, 8, 9, 10, 11, 12, 13, 14, 15}" by simp arith
  then show ?thesis by (auto simp: hex_digit_def hex_val_def)
qed

lemma hex_val_zero: "hex_val CHR ''0'' = Some 0"
  by (simp add: hex_val_def)

lemma parse_quote_char:
  "parse_string (quote_char c @ tail) = cons_char (Parsed c) (parse_string tail)"
proof (cases "(of_char c :: nat) < 32")
  case False
  then have "c \<notin> {CHR 0x08, CHR 0x0C, CHR 0x0A, CHR 0x0D, CHR 0x09}" by auto
  with False show ?thesis
    by (auto simp: quote_char_def unescape_def)
next
  case True
  then have ne: "c \<noteq> CHR 0x22" "c \<noteq> CHR 0x5C" by auto
  have h: "hex4 CHR ''0'' CHR ''0'' (hex_digit (of_char c div 16)) (hex_digit (of_char c mod 16))
           = Parsed c"
  proof -
    from True have a: "(of_char c :: nat) div 16 < 16" by simp
    have b: "(of_char c :: nat) mod 16 < 16" by simp
    have "(of_char c :: nat) div 16 * 16 + of_char c mod 16 = of_char c" by simp
    with True show ?thesis
      by (simp add: hex4_def hex_val_zero hex_val_hex_digit [OF a] hex_val_hex_digit [OF b])
  qed
  from ne h show ?thesis
    by (auto simp: quote_char_def unescape_def)
qed

lemma parse_string_quoted:
  "parse_string (concat (map quote_char s) @ CHR 0x22 # rest) = Parsed (s, rest)"
  by (induction s) (simp_all add: parse_quote_char cons_char_def)

lemma ws_skip:
  "(\<And>x. x \<in> set pre \<Longrightarrow> is_ws x) \<Longrightarrow> \<not> is_ws c \<Longrightarrow> ws (pre @ c # cs) = c # cs"
  by (simp add: ws_def dropWhile_append2)

lemma ws_keep: "\<not> is_ws c \<Longrightarrow> ws (c # cs) = c # cs"
  by (simp add: ws_def)

lemma json_text_start:
  "\<exists>c cs. json_text v = c # cs \<and> \<not> is_ws c \<and> c \<noteq> CHR '']''"
proof (cases v)
  case (JNum i)
  obtain c cs where "show_int i = c # cs" "c = CHR ''-'' \<or> is_digit c"
    using number_head by blast
  with JNum show ?thesis using number_start [of c] by simp
qed (auto simp: is_ws_def quote_def)

lemma terminated_simps:
  "terminated (CHR '','' # r)" "terminated (CHR '']'' # r)" "terminated (CHR ''}'' # r)"
  "terminated []" "is_ws c \<Longrightarrow> terminated (c # r)"
  by (auto simp: terminated_def is_digit_def is_ws_def)

lemma comma_separated_elems:
  "xs \<noteq> [] \<Longrightarrow> comma_separated (map json_text xs) @ '']'' = elems [] [] xs"
  by (induction "[] :: string" "[] :: string" xs rule: elems.induct) simp_all

lemma comma_separated_membs:
  "comma_separated (map (\<lambda>kv. quote (fst kv) @ '':'' @ json_text (snd kv)) kvs) @ ''}'' = membs kvs"
  by (induction kvs rule: membs.induct) simp_all

lemma parse_value_number:
  assumes "\<And>x. x \<in> set pre \<Longrightarrow> is_ws x" and "0 < n"
    and s: "s = c # cs" and c: "c = CHR ''-'' \<or> is_digit c"
  shows "parse_value n (pre @ s) = parse_number s"
proof -
  note sp = number_start [OF c]
  obtain m where n: "n = Suc m" using assms(2) by (cases n) auto
  have "ws (pre @ c # cs) = c # cs"
    using assms(1) sp by (simp add: ws_def dropWhile_append2)
  with sp show ?thesis unfolding n s by simp
qed

lemma parse_elements_elems:
  assumes IH: "\<And>x n pre rest. x \<in> set xs \<Longrightarrow> cost x \<le> n \<Longrightarrow> (\<And>y. y \<in> set pre \<Longrightarrow> is_ws y)
                 \<Longrightarrow> terminated rest \<Longrightarrow> parse_value n (pre @ json_text x @ rest) = Parsed (x, rest)"
    and "xs \<noteq> []"
    and "\<And>y. y \<in> set pre \<Longrightarrow> is_ws y"
    and sep: "\<And>y. y \<in> set sep \<Longrightarrow> is_ws y"
    and close: "\<And>y. y \<in> set close \<Longrightarrow> is_ws y"
    and "sum_list (map (\<lambda>x. Suc (cost x)) xs) \<le> n"
  shows "parse_elements n (pre @ elems sep close xs @ rest) = Parsed (xs, rest)"
  using assms(1,2,3,6)
proof (induction xs arbitrary: n pre)
  case Nil
  then show ?case by simp
next
  case (Cons x xs)
  note outer_IH = Cons.IH and prems = Cons.prems
  from Cons.prems(4) obtain m where n: "n = Suc m" and cx: "cost x \<le> m"
    and cxs: "sum_list (map (\<lambda>x. Suc (cost x)) xs) \<le> m"
    by (cases n) auto
  show ?case
  proof (cases xs)
    case Nil
    have t: "terminated (close @ CHR '']'' # rest)"
      using close by (cases close) (auto simp: terminated_simps)
    have v: "parse_value m (pre @ json_text x @ close @ CHR '']'' # rest)
             = Parsed (x, close @ CHR '']'' # rest)"
      using prems(1) [of x m pre] cx prems(3) t by simp
    have w: "ws (close @ CHR '']'' # rest) = CHR '']'' # rest"
      using close by (intro ws_skip) (auto simp: is_ws_def)
    show ?thesis unfolding n Nil using v w by simp
  next
    case (Cons y ys)
    let ?tail = "sep @ elems sep close (y # ys) @ rest"
    have v: "parse_value m (pre @ json_text x @ CHR '','' # ?tail) = Parsed (x, CHR '','' # ?tail)"
      using prems(1) [of x m pre] cx prems(3) by (simp add: terminated_simps)
    have w: "ws (CHR '','' # ?tail) = CHR '','' # ?tail"
      by (simp add: ws_keep is_ws_def)
    have r: "parse_elements m ?tail = Parsed (y # ys, rest)"
      unfolding Cons [symmetric]
    proof (rule outer_IH)
      show "xs \<noteq> []" using Cons by simp
    qed (use prems(1) cxs sep in auto)
    show ?thesis unfolding n Cons using v w r by simp
  qed
qed

lemma parse_members_membs:
  assumes IH: "\<And>k v n pre rest. (k, v) \<in> set kvs \<Longrightarrow> cost v \<le> n \<Longrightarrow> (\<And>y. y \<in> set pre \<Longrightarrow> is_ws y)
                 \<Longrightarrow> terminated rest \<Longrightarrow> parse_value n (pre @ json_text v @ rest) = Parsed (v, rest)"
    and "kvs \<noteq> []"
    and "sum_list (map (\<lambda>kv. Suc (cost (snd kv))) kvs) \<le> n"
  shows "parse_members n (membs kvs @ rest) = Parsed (kvs, rest)"
  using assms
proof (induction kvs arbitrary: n)
  case Nil
  then show ?case by simp
next
  case (Cons kv kvs)
  note outer_IH = Cons.IH and prems = Cons.prems
  obtain k v where kv: "kv = (k, v)" by (cases kv)
  from Cons.prems(3) obtain m where n: "n = Suc m" and cx: "cost v \<le> m"
    and cxs: "sum_list (map (\<lambda>kv. Suc (cost (snd kv))) kvs) \<le> m"
    unfolding kv by (cases n) auto
  have q: "\<And>tail. ws (quote k @ tail) = quote k @ tail"
    by (simp add: quote_def ws_keep is_ws_def)
  have p: "\<And>tail. parse_string (tl (quote k @ tail)) = Parsed (k, tail)"
    by (simp add: quote_def parse_string_quoted)
  have col: "\<And>tail. ws (CHR '':'' # tail) = CHR '':'' # tail"
    by (simp add: ws_keep is_ws_def)
  show ?case
  proof (cases kvs)
    case Nil
    have v: "parse_value m (json_text v @ CHR ''}'' # rest) = Parsed (v, CHR ''}'' # rest)"
      using prems(1) [of k v m "[]"] cx by (simp add: kv terminated_simps)
    have w: "ws (CHR ''}'' # rest) = CHR ''}'' # rest"
      by (simp add: ws_keep is_ws_def)
    show ?thesis unfolding n Nil kv using v w
      by (simp add: quote_def ws_keep is_ws_def parse_string_quoted)
  next
    case (Cons y ys)
    let ?tail = "membs (y # ys) @ rest"
    have v: "parse_value m (json_text v @ CHR '','' # ?tail) = Parsed (v, CHR '','' # ?tail)"
      using prems(1) [of k v m "[]"] cx by (simp add: kv terminated_simps)
    have w: "ws (CHR '','' # ?tail) = CHR '','' # ?tail"
      by (simp add: ws_keep is_ws_def)
    have r: "parse_members m ?tail = Parsed (y # ys, rest)"
      unfolding Cons [symmetric]
    proof (rule outer_IH)
      show "kvs \<noteq> []" using Cons by simp
      show "sum_list (map (\<lambda>kv. Suc (cost (snd kv))) kvs) \<le> m" using cxs .
      fix k' v' n' pre' rest'
      assume a: "(k', v') \<in> set kvs" "cost v' \<le> n'" "\<And>y. y \<in> set pre' \<Longrightarrow> is_ws y"
        "terminated rest'"
      show "parse_value n' (pre' @ json_text v' @ rest') = Parsed (v', rest')"
        by (rule prems(1) [of k']) (use a in simp_all)
    qed
    show ?thesis unfolding n Cons kv using v w r
      by (simp add: quote_def ws_keep is_ws_def parse_string_quoted)
  qed
qed

lemma update_new_key:
  "k \<notin> fst ` set al \<Longrightarrow> AList.update k v al = al @ [(k, v)]"
  by (induction al) auto

lemma foldl_update_distinct:
  "distinct (map fst (acc @ kvs)) \<Longrightarrow>
   foldl (\<lambda>obj kv. AList.update (fst kv) (snd kv) obj) acc kvs = acc @ kvs"
proof (induction kvs arbitrary: acc)
  case Nil
  then show ?case by simp
next
  case (Cons kv kvs)
  from Cons.prems have "fst kv \<notin> fst ` set acc" by auto
  then have u: "AList.update (fst kv) (snd kv) acc = acc @ [kv]"
    by (simp add: update_new_key)
  from Cons.prems have "distinct (map fst ((acc @ [kv]) @ kvs))" by simp
  from Cons.IH [OF this] show ?case by (simp add: u)
qed

lemma object_of_plain: "plain_keys (map fst kvs) \<Longrightarrow> object_of kvs = Parsed (JObj kvs)"
  using foldl_update_distinct [of "[]" kvs] by (simp add: object_of_def plain_keys_def)

lemma parse_value_json_text:
  "representable v \<Longrightarrow> cost v \<le> n \<Longrightarrow> (\<And>y. y \<in> set pre \<Longrightarrow> is_ws y) \<Longrightarrow> terminated rest
   \<Longrightarrow> parse_value n (pre @ json_text v @ rest) = Parsed (v, rest)"
proof (induction v arbitrary: n pre rest)
  case JNull
  then obtain m where n: "n = Suc m" by (cases n) auto
  have "ws (pre @ CHR ''n'' # ''ull'' @ rest) = CHR ''n'' # ''ull'' @ rest"
    using JNull(3) by (intro ws_skip) (auto simp: is_ws_def)
  then show ?case unfolding n by (simp add: literal_def)
next
  case (JBool b)
  then obtain m where n: "n = Suc m" by (cases n) auto
  have t: "ws (pre @ CHR ''t'' # ''rue'' @ rest) = CHR ''t'' # ''rue'' @ rest"
    using JBool(3) by (intro ws_skip) (auto simp: is_ws_def)
  have f: "ws (pre @ CHR ''f'' # ''alse'' @ rest) = CHR ''f'' # ''alse'' @ rest"
    using JBool(3) by (intro ws_skip) (auto simp: is_ws_def)
  from t f show ?case unfolding n by (cases b) (simp_all add: literal_def)
next
  case (JNum i)
  then have n: "0 < n" and safe: "safe_integer i" by simp_all
  obtain c cs where s: "show_int i = c # cs" and c: "c = CHR ''-'' \<or> is_digit c"
    using number_head by blast
  have e: "show_int i @ rest = c # (cs @ rest)" by (simp add: s)
  have "parse_value n (pre @ show_int i @ rest) = parse_number (show_int i @ rest)"
    using JNum(3) n e c by (rule parse_value_number)
  with JNum(4) safe show ?case by (simp add: parse_number_show_int)
next
  case (JStr s)
  then obtain m where n: "n = Suc m" by (cases n) auto
  let ?body = "concat (map quote_char s) @ CHR 0x22 # rest"
  have "ws (pre @ CHR 0x22 # ?body) = CHR 0x22 # ?body"
    using JStr(3) by (intro ws_skip) (auto simp: is_ws_def)
  then show ?case unfolding n by (simp add: quote_def parse_string_quoted)
next
  case (JArr xs)
  from JArr.prems(2) obtain m where n: "n = Suc m"
    and c: "sum_list (map (\<lambda>x. Suc (cost x)) xs) \<le> m" by (cases n) auto
  have IH: "\<And>x n pre rest. x \<in> set xs \<Longrightarrow> cost x \<le> n \<Longrightarrow> (\<And>y. y \<in> set pre \<Longrightarrow> is_ws y)
               \<Longrightarrow> terminated rest \<Longrightarrow> parse_value n (pre @ json_text x @ rest) = Parsed (x, rest)"
    using JArr.IH JArr.prems(1) by (simp add: list_all_iff)
  show ?case
  proof (cases "xs = []")
    case True
    have "ws (pre @ CHR ''['' # CHR '']'' # rest) = CHR ''['' # CHR '']'' # rest"
      using JArr.prems(3) by (intro ws_skip) (auto simp: is_ws_def)
    moreover have "ws (CHR '']'' # rest) = CHR '']'' # rest"
      by (simp add: ws_keep is_ws_def)
    ultimately show ?thesis unfolding n True by simp
  next
    case False
    let ?body = "elems [] [] xs @ rest"
    have b: "json_text (JArr xs) @ rest = CHR ''['' # ?body"
      using comma_separated_elems [OF False] by simp
    have o: "ws (pre @ CHR ''['' # ?body) = CHR ''['' # ?body"
      using JArr.prems(3) by (intro ws_skip) (auto simp: is_ws_def)
    obtain x xs' where xs: "xs = x # xs'" using False by (cases xs) auto
    obtain d ds where st: "json_text x = d # ds" "\<not> is_ws d" "d \<noteq> CHR '']''"
      using json_text_start by blast
    have "\<exists>tail. ?body = d # tail" unfolding xs using st(1) by (cases xs') auto
    then obtain tail where tl: "?body = d # tail" by blast
    have nb: "(hd (ws ?body) = CHR '']'') = False"
      unfolding tl using st by (simp add: ws_keep)
    have e: "parse_elements m ([] @ ?body) = Parsed (xs, rest)"
      using IH False _ _ _ c by (rule parse_elements_elems) simp_all
    show ?thesis unfolding b n using o e by (simp add: nb)
  qed
next
  case (JObj kvs)
  from JObj.prems(2) obtain m where n: "n = Suc m"
    and c: "sum_list (map (\<lambda>kv. Suc (cost (snd kv))) kvs) \<le> m" by (cases n) auto
  from JObj.prems(1) have keys: "plain_keys (map fst kvs)"
    and reps: "\<And>kv. kv \<in> set kvs \<Longrightarrow> representable (snd kv)"
    by (simp_all add: list_all_iff)
  show ?case
  proof (cases "kvs = []")
    case True
    have "ws (pre @ CHR ''{'' # CHR ''}'' # rest) = CHR ''{'' # CHR ''}'' # rest"
      using JObj.prems(3) by (intro ws_skip) (auto simp: is_ws_def)
    moreover have "ws (CHR ''}'' # rest) = CHR ''}'' # rest"
      by (simp add: ws_keep is_ws_def)
    ultimately show ?thesis unfolding n True by simp
  next
    case False
    let ?body = "membs kvs @ rest"
    have b: "json_text (JObj kvs) @ rest = CHR ''{'' # ?body"
      using comma_separated_membs [of kvs] by simp
    have o: "ws (pre @ CHR ''{'' # ?body) = CHR ''{'' # ?body"
      using JObj.prems(3) by (intro ws_skip) (auto simp: is_ws_def)
    obtain kv kvs' where kvs: "kvs = kv # kvs'" using False by (cases kvs) auto
    have "\<exists>tail. ?body = CHR 0x22 # tail" unfolding kvs by (cases kvs') (auto simp: quote_def)
    then obtain tail where tl: "?body = CHR 0x22 # tail" by blast
    have nb: "(hd (ws ?body) = CHR ''}'') = False"
      unfolding tl by (simp add: ws_keep is_ws_def)
    have IH: "\<And>k v n pre rest. (k, v) \<in> set kvs \<Longrightarrow> cost v \<le> n \<Longrightarrow> (\<And>y. y \<in> set pre \<Longrightarrow> is_ws y)
                 \<Longrightarrow> terminated rest \<Longrightarrow> parse_value n (pre @ json_text v @ rest) = Parsed (v, rest)"
    proof -
      fix k v n pre rest
      assume a: "(k, v) \<in> set kvs" "cost v \<le> n" "\<And>y. y \<in> set pre \<Longrightarrow> is_ws y" "terminated rest"
      from reps [OF a(1)] have "representable v" by simp
      with a show "parse_value n (pre @ json_text v @ rest) = Parsed (v, rest)"
        using JObj.IH [of "(k, v)" v n pre rest] by simp
    qed
    have e: "parse_members m ?body = Parsed (kvs, rest)"
      using IH False c by (rule parse_members_membs)
    show ?thesis unfolding b n using o e by (simp add: nb object_of_plain [OF keys] with_rest_def)
  qed
qed

lemma sum_cost_bound:
  assumes "\<And>x. x \<in> set xs \<Longrightarrow> f x \<le> length (g x)"
  shows "sum_list (map (\<lambda>x. Suc (f x)) xs) \<le> length (comma_separated (map g xs)) + 1"
  using assms
proof (induction xs rule: induct_list012)
  case (3 x y zs)
  have "f x \<le> length (g x)" using 3(3) by simp
  moreover have "sum_list (map (\<lambda>x. Suc (f x)) (y # zs))
                 \<le> length (comma_separated (map g (y # zs))) + 1"
    by (rule 3(2)) (use 3(3) in auto)
  ultimately show ?case by simp
qed (auto simp: Suc_leI)

lemma cost_le_length: "cost v \<le> length (json_text v)"
proof (induction v)
  case (JArr xs)
  have "sum_list (map (\<lambda>x. Suc (cost x)) xs) \<le> length (comma_separated (map json_text xs)) + 1"
    using JArr by (rule sum_cost_bound)
  then show ?case by simp
next
  case (JObj kvs)
  have "sum_list (map (\<lambda>kv. Suc (cost (snd kv))) kvs)
        \<le> length (comma_separated (map (\<lambda>kv. quote (fst kv) @ '':'' @ json_text (snd kv)) kvs)) + 1"
  proof (rule sum_cost_bound)
    fix kv assume "kv \<in> set kvs"
    moreover obtain k v where "kv = (k, v)" by (cases kv)
    ultimately have "cost (snd kv) \<le> length (json_text (snd kv))"
      using JObj [of kv v] by simp
    then show "cost (snd kv) \<le> length (quote (fst kv) @ '':'' @ json_text (snd kv))" by simp
  qed
  then show ?case by simp
qed (simp_all add: Suc_leI show_nat_nonempty show_int_def quote_def)

text \<open>Printing representable data and parsing the text gives the data back.\<close>

lemma parse_JSON_json_text: "representable v \<Longrightarrow> parse_JSON (json_text v) = Parsed v"
proof -
  assume r: "representable v"
  have "cost v \<le> Suc (2 * length (json_text v))"
    using cost_le_length [of v] by simp
  with r have "parse_value (Suc (2 * length (json_text v))) ([] @ json_text v @ []) = Parsed (v, [])"
    by (rule parse_value_json_text) (simp_all add: terminated_simps)
  then show ?thesis by (simp add: parse_JSON_def ws_def)
qed



subsection \<open>The directory listing\<close>


















section \<open>Properties of the worker\<close>

subsection \<open>The id allocator\<close>

lemma skip_occupied_free: "\<not> occupied c \<Longrightarrow> skip_occupied occupied c = Some c"
  by (subst skip_occupied.simps) simp

lemma skip_occupied_step:
  "occupied c \<Longrightarrow> skip_occupied occupied c = skip_occupied occupied ((c + 1) mod 10000)"
  by (subst skip_occupied.simps) simp

lemma skip_occupied_offset:
  "\<lbrakk>\<forall>e<d. occupied ((c + e) mod 10000); \<not> occupied ((c + d) mod 10000); c < 10000\<rbrakk>
   \<Longrightarrow> skip_occupied occupied c = Some ((c + d) mod 10000)"
proof (induction d arbitrary: c)
  case 0
  then show ?case by (simp add: skip_occupied_free)
next
  case (Suc d)
  from Suc.prems(1) have occ_c: "occupied c"
    using Suc.prems(3) by (metis add.right_neutral mod_less zero_less_Suc)
  have shift: "((c + 1) mod 10000 + e) mod 10000 = (c + Suc e) mod 10000" for e
    by (simp add: mod_add_left_eq)
  have "skip_occupied occupied ((c + 1) mod 10000) = Some (((c + 1) mod 10000 + d) mod 10000)"
  proof (rule Suc.IH)
    show "\<forall>e<d. occupied (((c + 1) mod 10000 + e) mod 10000)"
      unfolding shift using Suc.prems(1) by (metis Suc_less_eq)
    show "\<not> occupied (((c + 1) mod 10000 + d) mod 10000)"
      unfolding shift using Suc.prems(2) .
    show "(c + 1) mod 10000 < 10000" by simp
  qed
  then have "skip_occupied occupied ((c + 1) mod 10000) = Some ((c + Suc d) mod 10000)"
    unfolding shift .
  then show ?case using skip_occupied_step [of occupied c] occ_c by simp
qed

lemma skip_occupied_finds:
  assumes "c < 10000" and "i < 10000" and "\<not> occupied i"
  shows "\<exists>d. (\<forall>e<d. occupied ((c + e) mod 10000)) \<and> \<not> occupied ((c + d) mod 10000)
             \<and> skip_occupied occupied c = Some ((c + d) mod 10000)"
proof -
  define P where "P d \<longleftrightarrow> \<not> occupied ((c + d) mod 10000)" for d
  have "(c + (i + 10000 - c)) mod 10000 = i"
    using assms(1,2) by simp
  then have "P (i + 10000 - c)" using assms(3) by (simp add: P_def)
  then have least: "P (LEAST d. P d)"
    by (rule LeastI)
  have minimal: "\<not> P e" if "e < (LEAST d. P d)" for e
    using that by (rule not_less_Least)
  let ?d = "LEAST d. P d"
  have "\<forall>e<?d. occupied ((c + e) mod 10000)" using minimal by (auto simp: P_def)
  moreover have "\<not> occupied ((c + ?d) mod 10000)" using least by (simp add: P_def)
  ultimately show ?thesis using skip_occupied_offset [of ?d occupied c] assms(1) by blast
qed

text \<open>A registry with fewer than 10000 keys has a free slot below 10000.\<close>

lemma set_object_keys: "set (object_keys d) = fst ` set d"
  by (simp add: object_keys_def)

lemma distinct_object_keys: "distinct (object_keys d)"
  by (simp add: object_keys_def)

lemma hasOwnProperty_keys: "hasOwnProperty d k \<longleftrightarrow> k \<in> set (object_keys d)"
  by (simp add: hasOwnProperty_def set_object_keys map_of_eq_None_iff)

lemma free_slot:
  assumes "length (object_keys d) < 10000"
  shows "\<exists>i<10000. \<not> hasOwnProperty d i"
proof (rule ccontr)
  assume "\<not> ?thesis"
  then have "{0..<10000} \<subseteq> set (object_keys d)"
    by (auto simp: hasOwnProperty_keys)
  then have "card {0..<10000::nat} \<le> card (set (object_keys d))"
    by (intro card_mono) auto
  also have "\<dots> = length (object_keys d)"
    by (simp add: distinct_card distinct_object_keys)
  finally show False using assms by simp
qed

lemma allocate:
  assumes "length (object_keys d) < 10000"
  shows "\<exists>k. (\<forall>e<k. hasOwnProperty d ((cursor + 1 + e) mod 10000))
            \<and> \<not> hasOwnProperty d ((cursor + 1 + k) mod 10000)
            \<and> skip_occupied (hasOwnProperty d) ((cursor + 1) mod 10000)
                = Some ((cursor + 1 + k) mod 10000)"
proof -
  obtain i where "i < 10000" "\<not> hasOwnProperty d i"
    using free_slot [OF assms] by blast
  from skip_occupied_finds [of "(cursor + 1) mod 10000" i "hasOwnProperty d"] this
  show ?thesis by (simp add: mod_add_left_eq)
qed

lemma skip_occupied_result:
  assumes "skip_occupied occupied c = Some y"
  shows "\<not> occupied y \<and> (c < 10000 \<longrightarrow> y < 10000)"
proof (rule skip_occupied.raw_induct
    [where P = "\<lambda>occ c y. \<not> occ y \<and> (c < 10000 \<longrightarrow> y < 10000)", OF _ assms])
  fix skip :: "(nat \<Rightarrow> bool) \<Rightarrow> nat \<Rightarrow> nat option" and occ c y
  assume IH: "\<And>occ c y. skip occ c = Some y \<Longrightarrow> \<not> occ y \<and> (c < 10000 \<longrightarrow> y < 10000)"
    and step: "(if occ c then skip occ ((c + 1) mod 10000) else Some c) = Some y"
  show "\<not> occ y \<and> (c < 10000 \<longrightarrow> y < 10000)"
  proof (cases "occ c")
    case True
    with step have "skip occ ((c + 1) mod 10000) = Some y" by simp
    from IH [OF this] show ?thesis by simp
  next
    case False
    with step show ?thesis by simp
  qed
qed

lemma cyclic_reach:
  assumes "c < 10000" and "i < (10000::nat)"
  shows "\<exists>k<10000. (c + k) mod 10000 = i"
proof (cases "c \<le> i")
  case True
  then have "(c + (i - c)) mod 10000 = i" using assms by simp
  moreover have "i - c < 10000" using assms by simp
  ultimately show ?thesis by blast
next
  case False
  then have "(c + (i + 10000 - c)) mod 10000 = i" using assms by simp
  moreover have "i + 10000 - c < 10000" using False assms by simp
  ultimately show ?thesis by blast
qed

lemma skip_occupied_full:
  assumes "\<forall>i<10000. occupied i" and "c < 10000"
  shows "skip_occupied occupied c = None"
proof (cases "skip_occupied occupied c")
  case None
  then show ?thesis .
next
  case (Some y)
  from skip_occupied_result [OF this] assms show ?thesis by auto
qed

lemma find_map_upt_Some:
  "find P (map f [0..<n]) = Some x \<longleftrightarrow> (\<exists>k<n. x = f k \<and> P (f k) \<and> (\<forall>e<k. \<not> P (f e)))"
  by (auto simp: find_Some_iff)

lemma skip_occupied_first_free:
  "skip_occupied (hasOwnProperty d) ((cursor + 1) mod 10000) = first_free d cursor"
proof (cases "first_free d cursor")
  case None
  then have all: "\<forall>k<10000. hasOwnProperty d ((cursor + 1 + k) mod 10000)"
    by (auto simp: first_free_def find_None_iff)
  have "\<forall>i<10000. hasOwnProperty d i"
  proof (intro allI impI)
    fix i :: nat assume "i < 10000"
    then obtain k where k: "k < 10000" "((cursor + 1) mod 10000 + k) mod 10000 = i"
      using cyclic_reach [of "(cursor + 1) mod 10000" i] by auto
    from k(2) have "(cursor + 1 + k) mod 10000 = i" by (simp add: mod_add_left_eq)
    with all k(1) show "hasOwnProperty d i" by metis
  qed
  then show ?thesis using None by (simp add: skip_occupied_full)
next
  case (Some i)
  then obtain k where k: "k < 10000" "i = (cursor + 1 + k) mod 10000"
      "\<not> hasOwnProperty d ((cursor + 1 + k) mod 10000)"
      "\<forall>e<k. hasOwnProperty d ((cursor + 1 + e) mod 10000)"
    by (auto simp: first_free_def find_map_upt_Some)
  have "skip_occupied (hasOwnProperty d) ((cursor + 1) mod 10000)
          = Some (((cursor + 1) mod 10000 + k) mod 10000)"
    by (rule skip_occupied_offset) (use k in \<open>simp_all add: mod_add_left_eq\<close>)
  then show ?thesis using Some k by (simp add: mod_add_left_eq)
qed

lemma first_free_Some:
  "first_free d cursor = Some i \<Longrightarrow> i < 10000 \<and> \<not> hasOwnProperty d i"
  by (auto simp: first_free_def find_map_upt_Some)

lemma first_free_exists:
  assumes "length (object_keys d) < 10000"
  shows "\<exists>i. first_free d cursor = Some i"
  using allocate [OF assms, of cursor] by (metis skip_occupied_first_free)

lemma hasOwnProperty_update [simp]:
  "hasOwnProperty (AList.update i v d) k \<longleftrightarrow> k = i \<or> hasOwnProperty d k"
  by (simp add: hasOwnProperty_def update_conv')

lemma storeStream_fresh:
  assumes "r_token (heap w a) = None" and "first_free (streams w) (nextStreamID w) = Some i"
  shows "\<exists>tk w'. storeStream a w = Some (tk, w') \<and> tok_id tk = Some i \<and> nextStreamID w' = i
           \<and> streams w' = AList.update i a (streams w)
           \<and> (\<forall>b. b \<noteq> a \<longrightarrow> heap w' b = heap w b)
           \<and> r_token (heap w' a) = Some tk"
  using assms unfolding storeStream_def skip_occupied_first_free
  by (simp add: Let_def modify_def)

lemma storeWatcher_fresh:
  assumes "first_free (watchers w) (nextWatcherID w) = Some i"
  shows "\<exists>tk w'. storeWatcher a w = Some (tk, w') \<and> tok_id tk = Some i \<and> nextWatcherID w' = i
           \<and> watchers w' = AList.update i a (watchers w)"
  using assms unfolding storeWatcher_def skip_occupied_first_free
  by (simp add: Let_def modify_def)

lemma first_free_next:
  assumes "\<not> hasOwnProperty d ((cursor + 1) mod 10000)"
  shows "first_free d cursor = Some ((cursor + 1) mod 10000)"
proof -
  have "skip_occupied (hasOwnProperty d) ((cursor + 1) mod 10000) = Some ((cursor + 1) mod 10000)"
    using assms by (rule skip_occupied_free)
  then show ?thesis by (simp only: skip_occupied_first_free)
qed

lemma store_all_fresh:
  "n \<le> 9998 \<Longrightarrow>
   \<exists>w. store_all n fresh_worker = Some w \<and> nextStreamID w = n + 1
       \<and> (\<forall>k. hasOwnProperty (streams w) k \<longleftrightarrow> 2 \<le> k \<and> k < n + 2)
       \<and> (\<forall>a\<ge>n. r_token (heap w a) = None)"
proof (induction n)
  case 0
  have "nextStreamID fresh_worker = 1" "streams fresh_worker = []"
    "\<And>a. r_token (heap fresh_worker a) = None"
    by (simp_all add: fresh_worker_def new_Worker_def new_resource_def)
  then show ?case
    by (simp add: hasOwnProperty_def)
next
  case (Suc n)
  then obtain w where w: "store_all n fresh_worker = Some w" "nextStreamID w = n + 1"
      "\<forall>k. hasOwnProperty (streams w) k \<longleftrightarrow> 2 \<le> k \<and> k < n + 2"
      "\<forall>a\<ge>n. r_token (heap w a) = None"
    by auto
  have lt: "n + 2 < 10000" using Suc.prems by linarith
  have "(nextStreamID w + 1) mod 10000 = n + 2"
    unfolding w(2) using lt by simp
  moreover have "\<not> hasOwnProperty (streams w) (n + 2)" using w(3) by simp
  ultimately have ff: "first_free (streams w) (nextStreamID w) = Some (n + 2)"
    using first_free_next [of "streams w" "nextStreamID w"] by simp
  from w(4) have "r_token (heap w n) = None" by simp
  from storeStream_fresh [OF this ff] obtain tk w'
    where s: "storeStream n w = Some (tk, w')" "nextStreamID w' = n + 2"
      "streams w' = AList.update (n + 2) n (streams w)"
      "\<forall>b. b \<noteq> n \<longrightarrow> heap w' b = heap w b"
    by blast
  have "store_all (Suc n) fresh_worker = Some w'" using w(1) s(1) by simp
  moreover have "hasOwnProperty (streams w') k \<longleftrightarrow> 2 \<le> k \<and> k < Suc n + 2" for k
  proof -
    have "hasOwnProperty (streams w') k \<longleftrightarrow> k = n + 2 \<or> (2 \<le> k \<and> k < n + 2)"
      unfolding s(3) hasOwnProperty_update using w(3) by blast
    also have "\<dots> \<longleftrightarrow> 2 \<le> k \<and> k < Suc n + 2" by linarith
    finally show ?thesis .
  qed
  moreover have "\<forall>a\<ge>Suc n. r_token (heap w' a) = None" using w(4) s(4) by simp
  ultimately show ?case using s(2) by simp
qed

text \<open>
  Claim C5, as the code has it. When the stream being stored has no token yet and
  fewer than 10000 streams are registered, \<open>storeStream\<close> returns; the id of its token
  is the first free slot of the ring going round from \<open>(cursor + 1) mod 10000\<close>, it
  lies in 0..9999, the cursor is left on it, no registered stream had it, and all
  registered streams keep their ids. \<open>storeWatcher\<close> does the same on the registry and
  the cursor of the watchers.
\<close>

theorem handle_ids:
  assumes "r_token (heap w a) = None"
    and "length (object_keys (streams w)) < 10000"
    and "length (object_keys (watchers w)) < 10000"
  shows "(\<exists>i tk w'. storeStream a w = Some (tk, w') \<and> tok_id tk = Some i \<and> nextStreamID w' = i
            \<and> first_free (streams w) (nextStreamID w) = Some i
            \<and> i < 10000 \<and> \<not> hasOwnProperty (streams w) i
            \<and> map_of (streams w') = (map_of (streams w))(i \<mapsto> a))
       \<and> (\<exists>i tk w'. storeWatcher b w = Some (tk, w') \<and> tok_id tk = Some i \<and> nextWatcherID w' = i
            \<and> first_free (watchers w) (nextWatcherID w) = Some i
            \<and> i < 10000 \<and> \<not> hasOwnProperty (watchers w) i
            \<and> map_of (watchers w') = (map_of (watchers w))(i \<mapsto> b))"
proof
  from first_free_exists [OF assms(2)] obtain i
    where i: "first_free (streams w) (nextStreamID w) = Some i" by blast
  from storeStream_fresh [OF assms(1) i] first_free_Some [OF i] i
  show "\<exists>i tk w'. storeStream a w = Some (tk, w') \<and> tok_id tk = Some i \<and> nextStreamID w' = i
            \<and> first_free (streams w) (nextStreamID w) = Some i
            \<and> i < 10000 \<and> \<not> hasOwnProperty (streams w) i
            \<and> map_of (streams w') = (map_of (streams w))(i \<mapsto> a)"
    by (auto simp: update_conv')
next
  from first_free_exists [OF assms(3)] obtain i
    where i: "first_free (watchers w) (nextWatcherID w) = Some i" by blast
  from storeWatcher_fresh [OF i, of b] first_free_Some [OF i] i
  show "\<exists>i tk w'. storeWatcher b w = Some (tk, w') \<and> tok_id tk = Some i \<and> nextWatcherID w' = i
            \<and> first_free (watchers w) (nextWatcherID w) = Some i
            \<and> i < 10000 \<and> \<not> hasOwnProperty (watchers w) i
            \<and> map_of (watchers w') = (map_of (watchers w))(i \<mapsto> b)"
    by (auto simp: update_conv')
qed

text \<open>
  With the streams 2 and 3 live and the cursor at 1, the next stream skips both and
  gets id 4, and the two live streams keep their ids; with the watcher 2 live the next
  watcher gets id 3.
\<close>

theorem handle_ids_witness:
  "r_token (heap busy_worker 7) = None
   \<and> length (object_keys (streams busy_worker)) < 10000
   \<and> length (object_keys (watchers busy_worker)) < 10000
   \<and> (\<exists>tk w'. storeStream 7 busy_worker = Some (tk, w') \<and> tok_id tk = Some 4
         \<and> first_free (streams busy_worker) (nextStreamID busy_worker) = Some 4
         \<and> hasOwnProperty (streams busy_worker) 2 \<and> hasOwnProperty (streams busy_worker) 3
         \<and> map_of (streams w') 2 = Some 10 \<and> map_of (streams w') 3 = Some 11
         \<and> map_of (streams w') 4 = Some 7)
   \<and> (\<exists>tk w'. storeWatcher 8 busy_worker = Some (tk, w') \<and> tok_id tk = Some 3
         \<and> map_of (watchers w') 2 = Some 12 \<and> map_of (watchers w') 3 = Some 8)"
proof -
  have h: "r_token (heap busy_worker 7) = None"
    "length (object_keys (streams busy_worker)) < 10000"
    "length (object_keys (watchers busy_worker)) < 10000"
    by (simp_all add: busy_worker_def fresh_worker_def new_Worker_def new_resource_def
          object_keys_def)
  have s: "first_free (streams busy_worker) (nextStreamID busy_worker) = Some 4"
    unfolding skip_occupied_first_free [symmetric]
    by (simp add: busy_worker_def fresh_worker_def new_Worker_def hasOwnProperty_def
          skip_occupied_step skip_occupied_free)
  have t: "first_free (watchers busy_worker) (nextWatcherID busy_worker) = Some 3"
    unfolding skip_occupied_first_free [symmetric]
    by (simp add: busy_worker_def fresh_worker_def new_Worker_def hasOwnProperty_def
          skip_occupied_step skip_occupied_free)
  have m: "map_of (streams busy_worker) = [2 \<mapsto> 10, 3 \<mapsto> 11]"
    "map_of (watchers busy_worker) = [2 \<mapsto> 12]"
    by (auto simp: busy_worker_def fresh_worker_def new_Worker_def)
  from handle_ids [OF h, of 8] show ?thesis
    unfolding s t m using h by (auto simp: hasOwnProperty_def m)
qed

text \<open>
  The claim as it was written keeps every id in 1..9999. The cursor starts at 1, so the
  first 9998 streams of a worker get the ids 2 to 9999, and the next one gets
  \<open>(9999 + 1) mod 10000 = 0\<close>.
\<close>

theorem id_zero_counterexample:
  "map_option (tok_id \<circ> fst) (Option.bind (store_all 9998 fresh_worker) (storeStream 9998))
     = Some (Some 0)"
proof -
  obtain w where w: "store_all 9998 fresh_worker = Some w" "nextStreamID w = 9998 + 1"
      "\<forall>k. hasOwnProperty (streams w) k \<longleftrightarrow> 2 \<le> k \<and> k < 9998 + 2"
      "\<forall>a\<ge>9998. r_token (heap w a) = None"
    using store_all_fresh [of 9998] by blast
  have c: "(nextStreamID w + 1) mod 10000 = 0" unfolding w(2) by simp
  have "\<not> hasOwnProperty (streams w) 0" using w(3) by simp
  then have "first_free (streams w) (nextStreamID w) = Some 0"
    using first_free_next [of "streams w" "nextStreamID w"] unfolding c by simp
  moreover have "r_token (heap w 9998) = None" using w(4) by simp
  ultimately obtain tk w' where "storeStream 9998 w = Some (tk, w')" "tok_id tk = Some 0"
    using storeStream_fresh by blast
  then show ?thesis using w(1) by simp
qed

subsection \<open>Idempotence of the store functions\<close>

text \<open>
  The stream half of claim C2 holds: a second \<open>storeStream\<close> on the same stream
  returns the token minted by the first and changes nothing.
\<close>

lemma storeStream_idempotent:
  assumes "storeStream a w = Some (tk, w')"
  shows "storeStream a w' = Some (tk, w')"
proof (cases "r_token (heap w a)")
  case (Some t)
  with assms show ?thesis by (simp add: storeStream_def)
next
  case None
  with assms have "r_token (heap w' a) = Some tk"
    by (auto simp: storeStream_def Let_def modify_def split: option.splits)
  then show ?thesis by (simp add: storeStream_def)
qed

lemma storeStream_same_resource_only:
  assumes "storeStream a w = Some (tk, w')" and "b \<noteq> a"
  shows "heap w' b = heap w b"
  using assms
  by (auto simp: storeStream_def Let_def modify_def split: option.splits)

lemma storeStream_other_listeners:
  assumes "storeStream a w = Some (tk, w')" and "a \<noteq> p"
  shows "heap w' p = heap w p"
  using storeStream_same_resource_only [OF assms(1), of p] assms(2) by simp

text \<open>
  The process half does not: the guard reads \<open>processes.token\<close>, which is never
  set, so every call of \<open>storeProcess\<close> takes the registration path and puts the
  \<open>exit\<close> and \<open>close\<close> listeners on the process once more.
\<close>

lemma storeProcess_subscribes:
  assumes "storeProcess p onlyPid w = Some (v, w')"
    and "r_stdin (heap w p) \<noteq> p" and "r_stdout (heap w p) \<noteq> p" and "r_stderr (heap w p) \<noteq> p"
  shows "r_listeners (heap w' p) =
           r_listeners (heap w p)
             @ [On_exit (r_pid (heap w p)), On_process_close (r_pid (heap w p)) onlyPid]"
proof -
  define pid where "pid = r_pid (heap w p)"
  define w1 where "w1 = modify p (\<lambda>s. s\<lparr>r_listeners := r_listeners s
                                     @ [On_exit pid, On_process_close pid onlyPid],
                                  r_kill := Killtree_of pid,
                                  r_token := Some (Token None None None (Some pid) None None None)\<rparr>)
                   (w\<lparr>processes := AList.update pid p (processes w)\<rparr>)"
  have h1: "heap w1 p = (heap w p)\<lparr>r_listeners := r_listeners (heap w p)
                                     @ [On_exit pid, On_process_close pid onlyPid],
                                  r_kill := Killtree_of pid,
                                  r_token := Some (Token None None None (Some pid) None None None)\<rparr>"
    by (simp add: w1_def modify_def)
  show ?thesis
  proof (cases onlyPid)
    case True
    with assms(1) have "w' = w1"
      by (simp add: storeProcess_def processes_token_def Let_def w1_def pid_def)
    then show ?thesis using h1 by (simp add: pid_def)
  next
    case False
    with assms(1) obtain t_in w2 t_out w3 t_err w4 where
      s: "storeStream (r_stdin (heap w1 p)) w1 = Some (t_in, w2)"
         "storeStream (r_stdout (heap w2 p)) w2 = Some (t_out, w3)"
         "storeStream (r_stderr (heap w3 p)) w3 = Some (t_err, w4)"
         "w' = modify p (\<lambda>s. s\<lparr>r_token := Some (Token None None None (Some pid)
                                  (Some t_in) (Some t_out) (Some t_err))\<rparr>) w4"
      by (auto simp: storeProcess_def processes_token_def Let_def w1_def pid_def
            split: option.splits)
    have "r_stdin (heap w1 p) \<noteq> p" using assms(2) h1 by simp
    from storeStream_other_listeners [OF s(1) this] have h2: "heap w2 p = heap w1 p" .
    have "r_stdout (heap w2 p) \<noteq> p" using assms(3) h1 h2 by simp
    from storeStream_other_listeners [OF s(2) this] have h3: "heap w3 p = heap w1 p"
      using h2 by simp
    have "r_stderr (heap w3 p) \<noteq> p" using assms(4) h1 h3 by simp
    from storeStream_other_listeners [OF s(3) this] have h4: "heap w4 p = heap w1 p"
      using h3 by simp
    show ?thesis using s(4) h4 h1 by (simp add: modify_def pid_def)
  qed
qed

text \<open>
  Claim C2 at a process stored twice. The second call returns a token equal to the
  first, but it is not the early return the claim describes: the process is
  registered again and now carries each of its two listeners twice.
\<close>

theorem storeProcess_twice:
  "(case storeProcess 20 False process_worker of
      None \<Rightarrow> False
    | Some (v1, w1) \<Rightarrow>
       (case storeProcess 20 False w1 of
          None \<Rightarrow> False
        | Some (v2, w2) \<Rightarrow>
            v2 = v1
            \<and> r_listeners (heap w1 20) = [On_exit 7, On_process_close 7 False]
            \<and> r_listeners (heap w2 20) =
                [On_exit 7, On_process_close 7 False, On_exit 7, On_process_close 7 False]))"
  by (simp add: storeProcess_def storeStream_def processes_token_def process_worker_def
        new_Worker_def process_heap_def new_resource_def modify_def Let_def
        skip_occupied_free hasOwnProperty_def)

subsection \<open>Flow control\<close>

lemma set_object_keys_dom: "set (object_keys d) = dom (map_of d)"
  by (simp add: object_keys_def dom_map_of_conv_image_fst)

lemma in_resumable:
  "a \<in> set (resumable w) \<longleftrightarrow>
     (\<exists>i. map_of (streams w) i = Some a \<and> r_readable (heap w a) \<and> r_resume (heap w a) \<noteq> None)"
  by (auto simp: resumable_def set_object_keys_dom split: option.splits if_splits)
     (metis domI)

lemma in_writable_proxies:
  "p \<in> set (writable_proxies w) \<longleftrightarrow> (\<exists>i. map_of (proxyStreams w) i = Some p \<and> p_writable p)"
  by (auto simp: writable_proxies_def set_object_keys_dom split: option.splits if_splits)
     (metis domI)

text \<open>A loop whose body only writes to the trace.\<close>

lemma for_each_logs:
  assumes "\<And>k t. k \<in> set ks \<Longrightarrow> f k (w\<lparr>trace := t\<rparr>) = Done (w\<lparr>trace := t @ e k\<rparr>)"
  shows "for_each f ks (w\<lparr>trace := t\<rparr>) = Done (w\<lparr>trace := t @ concat (map e ks)\<rparr>)"
  using assms
proof (induction ks arbitrary: t)
  case Nil
  then show ?case by simp
next
  case (Cons k ks)
  have "f k (w\<lparr>trace := t\<rparr>) = Done (w\<lparr>trace := t @ e k\<rparr>)"
    by (rule Cons.prems) simp
  moreover have "for_each f ks (w\<lparr>trace := t @ e k\<rparr>)
                   = Done (w\<lparr>trace := (t @ e k) @ concat (map e ks)\<rparr>)"
    by (rule Cons.IH) (simp add: Cons.prems)
  ultimately show ?case by simp
qed

lemma map_concat_cases:
  "map h (concat (map g ks)) = concat (map (\<lambda>k. map h (g k)) ks)"
  by (induction ks) simp_all

lemma drain_streams:
  "for_each drain_stream (object_keys (streams w)) w
     = Done (w\<lparr>trace := trace w @ map (\<lambda>a. Call a ''resume'' []) (resumable w)\<rparr>)"
proof -
  let ?g = "\<lambda>i. case map_of (streams w) i of
              Some a \<Rightarrow> if r_readable (heap w a) \<and> r_resume (heap w a) \<noteq> None then [a] else []
            | None \<Rightarrow> []"
  let ?e = "\<lambda>k. map (\<lambda>a. Call a ''resume'' []) (?g k)"
  have "for_each drain_stream (object_keys (streams w)) (w\<lparr>trace := trace w\<rparr>)
          = Done (w\<lparr>trace := trace w @ concat (map ?e (object_keys (streams w)))\<rparr>)"
  proof (rule for_each_logs)
    fix k t assume "k \<in> set (object_keys (streams w))"
    then obtain a where "map_of (streams w) k = Some a"
      by (auto simp: set_object_keys_dom)
    then show "drain_stream k (w\<lparr>trace := t\<rparr>) = Done (w\<lparr>trace := t @ ?e k\<rparr>)"
      by (simp add: drain_stream_def log_def)
  qed
  then show ?thesis by (simp add: map_concat_cases resumable_def)
qed

lemma drain_proxies:
  "for_each drain_proxy (object_keys (proxyStreams w)) (w\<lparr>trace := t\<rparr>)
     = Done (w\<lparr>trace := t @ map (\<lambda>p. Proxy_emit (p_obj p) ''drain'') (writable_proxies w)\<rparr>)"
proof -
  let ?g = "\<lambda>i. case map_of (proxyStreams w) i of
              Some p \<Rightarrow> if p_writable p then [p] else []
            | None \<Rightarrow> []"
  let ?e = "\<lambda>k. map (\<lambda>p. Proxy_emit (p_obj p) ''drain'') (?g k)"
  have "for_each drain_proxy (object_keys (proxyStreams w)) (w\<lparr>trace := t\<rparr>)
          = Done (w\<lparr>trace := t @ concat (map ?e (object_keys (proxyStreams w)))\<rparr>)"
  proof (rule for_each_logs)
    fix k t assume "k \<in> set (object_keys (proxyStreams w))"
    then obtain p where "map_of (proxyStreams w) k = Some p"
      by (auto simp: set_object_keys_dom)
    then show "drain_proxy k (w\<lparr>trace := t\<rparr>) = Done (w\<lparr>trace := t @ ?e k\<rparr>)"
      by (simp add: drain_proxy_def log_def)
  qed
  then show ?thesis by (simp add: map_concat_cases writable_proxies_def)
qed

lemma drain_result:
  "drain w = Done (w\<lparr>trace := trace w @ map (\<lambda>a. Call a ''resume'' []) (resumable w)
                                   @ map (\<lambda>p. Proxy_emit (p_obj p) ''drain'') (writable_proxies w)\<rparr>)"
  using drain_proxies [of w "trace w @ map (\<lambda>a. Call a ''resume'' []) (resumable w)"]
  by (simp add: drain_def drain_streams and_then_def)

lemma run_data_listener:
  "event_of l = ''data'' \<Longrightarrow>
   run_listener a [chunk] l (w\<lparr>trace := t\<rparr>) = w\<lparr>trace := t @ data_effects w a chunk l\<rparr>"
  by (cases l) (simp_all add: data_effects_def log_def argv_def Let_def)

lemma fold_data_listeners:
  "\<forall>l \<in> set ls. event_of l = ''data'' \<Longrightarrow>
   fold (run_listener a [chunk]) ls (w\<lparr>trace := t\<rparr>)
     = w\<lparr>trace := t @ concat (map (data_effects w a chunk) ls)\<rparr>"
  by (induction ls arbitrary: t) (simp_all add: run_data_listener)

lemma dispatch_data:
  "dispatch a ''data'' [chunk] w =
     w\<lparr>trace := trace w @ concat (map (data_effects w a chunk)
                   (filter (\<lambda>l. event_of l = ''data'') (r_listeners (heap w a))))\<rparr>"
  using fold_data_listeners [where ls = "filter (\<lambda>l. event_of l = ''data'') (r_listeners (heap w a))"
      and a = a and chunk = chunk and w = w and t = "trace w"]
  by (simp add: dispatch_def)

lemma concat_split_at:
  assumes "x \<in> set xs"
  shows "\<exists>pre post. concat (map f xs) = pre @ f x @ post"
proof -
  from assms obtain ys zs where "xs = ys @ x # zs" by (auto simp: in_set_conv_decomp)
  then have "concat (map f xs) = concat (map f ys) @ f x @ concat (map f zs)" by simp
  then show ?thesis by blast
qed

text \<open>
  Claim C3. A stream that was stored while readable carries the \<open>data\<close> listener of
  its id. When a chunk arrives, the peer has \<open>onData\<close>, its call returns \<open>false\<close> and
  the stream has a \<open>pause\<close>, the worker calls \<open>onData(id, chunk)\<close> and then \<open>pause()\<close>
  on that stream. The \<open>drain\<close> handler never throws; it calls \<open>resume()\<close> on exactly
  the registered streams that are readable and have a \<open>resume\<close>, then emits \<open>drain\<close>
  on exactly the registered proxy streams that are writable, and changes nothing else.
\<close>

theorem backpressure:
  "(On_data i \<in> set (r_listeners (heap w a))
      \<and> ''onData'' \<in> set (peer_functions (remote w))
      \<and> onData_returns_false (remote w) i chunk
      \<and> r_pause (heap w a) \<noteq> None
    \<longrightarrow> (\<exists>pre post. trace (dispatch a ''data'' [chunk] w)
            = trace w @ pre @ [Remote ''onData'' [num i, chunk], Call a ''pause'' []] @ post))
   \<and> drain w =
       Done (w\<lparr>trace := trace w @ map (\<lambda>a. Call a ''resume'' []) (resumable w)
                          @ map (\<lambda>p. Proxy_emit (p_obj p) ''drain'') (writable_proxies w)\<rparr>)
   \<and> (\<forall>a. a \<in> set (resumable w) \<longleftrightarrow>
         (\<exists>i. map_of (streams w) i = Some a \<and> r_readable (heap w a) \<and> r_resume (heap w a) \<noteq> None))
   \<and> (\<forall>p. p \<in> set (writable_proxies w) \<longleftrightarrow>
         (\<exists>i. map_of (proxyStreams w) i = Some p \<and> p_writable p))"
proof (intro conjI impI)
  assume h: "On_data i \<in> set (r_listeners (heap w a))
      \<and> ''onData'' \<in> set (peer_functions (remote w))
      \<and> onData_returns_false (remote w) i chunk
      \<and> r_pause (heap w a) \<noteq> None"
  then have "On_data i \<in> set (filter (\<lambda>l. event_of l = ''data'') (r_listeners (heap w a)))"
    by simp
  from concat_split_at [OF this, of "data_effects w a chunk"] h
  show "\<exists>pre post. trace (dispatch a ''data'' [chunk] w)
            = trace w @ pre @ [Remote ''onData'' [num i, chunk], Call a ''pause'' []] @ post"
    by (auto simp: dispatch_data data_effects_def)
qed (simp_all add: drain_result in_resumable in_writable_proxies)

text \<open>
  Scenario S6: \<open>data("hi")\<close> on the stored stream gives \<open>onData(2, "hi")\<close> and
  \<open>pause()\<close>, and \<open>drain\<close> gives \<open>resume()\<close>.
\<close>

lemma streaming_worker_fields:
  "streams streaming_worker = [(2, 2)]"
  "proxyStreams streaming_worker = []"
  "trace streaming_worker = []"
  "remote streaming_worker = blocking_peer"
  "r_listeners (heap streaming_worker 2) = [On_error 2, On_data 2, On_end 2, On_close 2]"
  "r_readable (heap streaming_worker 2)"
  "r_pause (heap streaming_worker 2) = Some 2"
  "r_resume (heap streaming_worker 2) = Some 2"
  by (simp_all add: streaming_worker_def storeStream_def new_Worker_def process_heap_def
        new_resource_def modify_def Let_def skip_occupied_free hasOwnProperty_def)

theorem backpressure_witness:
  "On_data 2 \<in> set (r_listeners (heap streaming_worker 2))
   \<and> ''onData'' \<in> set (peer_functions (remote streaming_worker))
   \<and> onData_returns_false (remote streaming_worker) 2 (Plain (JStr ''hi''))
   \<and> r_pause (heap streaming_worker 2) \<noteq> None
   \<and> trace (dispatch 2 ''data'' [Plain (JStr ''hi'')] streaming_worker)
       = [Remote ''onData'' [num 2, Plain (JStr ''hi'')], Call 2 ''pause'' []]
   \<and> drain streaming_worker = Done (streaming_worker\<lparr>trace := [Call 2 ''resume'' []]\<rparr>)"
proof -
  have h: "On_data 2 \<in> set (r_listeners (heap streaming_worker 2))
      \<and> ''onData'' \<in> set (peer_functions (remote streaming_worker))
      \<and> onData_returns_false (remote streaming_worker) 2 (Plain (JStr ''hi''))
      \<and> r_pause (heap streaming_worker 2) \<noteq> None"
    by (simp add: streaming_worker_fields blocking_peer_def)
  have r: "resumable streaming_worker = [2]" "writable_proxies streaming_worker = []"
    by (simp_all add: resumable_def writable_proxies_def object_keys_def streaming_worker_fields)
  have d: "trace (dispatch 2 ''data'' [Plain (JStr ''hi'')] streaming_worker)
       = [Remote ''onData'' [num 2, Plain (JStr ''hi'')], Call 2 ''pause'' []]"
    by (simp add: dispatch_def streaming_worker_fields blocking_peer_def log_def argv_def Let_def)
  from backpressure [of 2 streaming_worker 2 "Plain (JStr ''hi'')"] h r d
  show ?thesis by (simp add: streaming_worker_fields)
qed

subsection \<open>Teardown on disconnect\<close>

lemma map_of_fold_delete:
  "map_of (fold AList.delete ks d) k = (if k \<in> set ks then None else map_of d k)"
  by (induction ks arbitrary: d) (auto simp: delete_conv')

lemma fold_delete_Nil: "fold AList.delete ks [] = []"
  by (induction ks) simp_all

lemma registry_empty: "(\<forall>k. map_of d k = None) \<Longrightarrow> d = []"
  by (cases d) (auto split: if_splits)

lemma argv_single: "argv 0 [x] = x" "argv 1 [x] = Undef"
  by (simp_all add: argv_def)

text \<open>One close listener.\<close>

lemma run_close_listener:
  assumes "event_of l = ''close''"
  shows "run_listener a args l w =
           w\<lparr>streams := fold AList.delete (listener_close_ids w a l) (streams w),
             processes := fold AList.delete (listener_close_pids l) (processes w),
             trace := trace w @ listener_close_effects w args l\<rparr>"
  using assms
  by (cases l)
     (simp_all add: remote_call_def log_def stdio_ids_def delete_stream_of_def Let_def
        split: option.split)

lemma listener_close_same:
  assumes "heap w' = heap w" and "remote w' = remote w"
  shows "listener_close_ids w' = listener_close_ids w"
    and "listener_close_effects w' = listener_close_effects w"
proof -
  have "listener_close_ids w' a l = listener_close_ids w a l" for a l
    using assms by (cases l) (simp_all add: stdio_ids_def)
  then show "listener_close_ids w' = listener_close_ids w" by (intro ext)
  have "listener_close_effects w' args l = listener_close_effects w args l" for args l
    using assms by (cases l) simp_all
  then show "listener_close_effects w' = listener_close_effects w" by (intro ext)
qed

lemma fold_close_listeners:
  assumes "\<forall>l \<in> set ls. event_of l = ''close''"
  shows "fold (run_listener a args) ls w =
           w\<lparr>streams := fold AList.delete (concat (map (listener_close_ids w a) ls)) (streams w),
             processes := fold AList.delete (concat (map listener_close_pids ls)) (processes w),
             trace := trace w @ concat (map (listener_close_effects w args) ls)\<rparr>"
  using assms
proof (induction ls arbitrary: w)
  case Nil
  then show ?case by simp
next
  case (Cons l ls)
  let ?w1 = "run_listener a args l w"
  have l: "event_of l = ''close''" and ls: "\<forall>l \<in> set ls. event_of l = ''close''"
    using Cons.prems by simp_all
  have w1: "?w1 = w\<lparr>streams := fold AList.delete (listener_close_ids w a l) (streams w),
             processes := fold AList.delete (listener_close_pids l) (processes w),
             trace := trace w @ listener_close_effects w args l\<rparr>"
    by (rule run_close_listener [OF l])
  have same: "heap ?w1 = heap w" "remote ?w1 = remote w" by (simp_all add: w1)
  have ids: "map (listener_close_ids ?w1 a) ls = map (listener_close_ids w a) ls"
    and effs: "map (listener_close_effects ?w1 args) ls = map (listener_close_effects w args) ls"
    using listener_close_same [OF same] by simp_all
  have "fold (run_listener a args) (l # ls) w = fold (run_listener a args) ls ?w1" by simp
  also have "\<dots> = ?w1\<lparr>streams := fold AList.delete (concat (map (listener_close_ids ?w1 a) ls)) (streams ?w1),
             processes := fold AList.delete (concat (map listener_close_pids ls)) (processes ?w1),
             trace := trace ?w1 @ concat (map (listener_close_effects ?w1 args) ls)\<rparr>"
    by (rule Cons.IH [OF ls])
  also have "\<dots> = w\<lparr>streams := fold AList.delete (concat (map (listener_close_ids w a) (l # ls))) (streams w),
             processes := fold AList.delete (concat (map listener_close_pids (l # ls))) (processes w),
             trace := trace w @ concat (map (listener_close_effects w args) (l # ls))\<rparr>"
    unfolding ids effs by (simp add: w1)
  finally show ?case .
qed

lemma not_close_listener:
  assumes "event_of l \<noteq> ''close''"
  shows "listener_close_ids w a l = []" and "listener_close_effects w args l = []"
    and "listener_close_pids l = []"
  using assms by (cases l; simp)+

lemma filter_close_ids:
  "concat (map (listener_close_ids w a) (filter (\<lambda>l. event_of l = ''close'') ls))
     = concat (map (listener_close_ids w a) ls)"
  by (induction ls) (simp_all add: not_close_listener)

lemma filter_close_effects:
  "concat (map (listener_close_effects w args) (filter (\<lambda>l. event_of l = ''close'') ls))
     = concat (map (listener_close_effects w args) ls)"
  by (induction ls) (simp_all add: not_close_listener)

lemma dispatch_close:
  "dispatch a ''close'' args w =
     w\<lparr>streams := fold AList.delete (close_ids w a) (streams w),
       processes := fold AList.delete
          (concat (map listener_close_pids (filter (\<lambda>l. event_of l = ''close'') (r_listeners (heap w a)))))
          (processes w),
       trace := trace w @ close_effects w a args\<rparr>"
  unfolding dispatch_def close_ids_def close_effects_def
  by (subst fold_close_listeners) (simp_all add: filter_close_ids filter_close_effects)

lemma close_same:
  assumes "heap w' = heap w" and "remote w' = remote w"
  shows "close_ids w' a = close_ids w a" and "close_effects w' a args = close_effects w a args"
  using listener_close_same [OF assms] assms(1) by (simp_all add: close_ids_def close_effects_def)

lemma disconnect_stream_step:
  assumes "map_of (streams w) k = Some a" and "processes w = []"
  shows "disconnect_stream err k w =
           Done (w\<lparr>streams := fold AList.delete (close_ids w a) (streams w),
                   trace := trace w @ stream_close_trace w err k\<rparr>)"
proof -
  let ?wl = "log (Emit a ''close'' [err]) w"
  have same: "heap ?wl = heap w" "remote ?wl = remote w" by (simp_all add: log_def)
  have p: "w\<lparr>processes := []\<rparr> = w" using assms(2) by (cases w) simp
  have "dispatch a ''close'' [err] ?wl =
          w\<lparr>streams := fold AList.delete (close_ids w a) (streams w),
            processes := [],
            trace := trace w @ Emit a ''close'' [err] # close_effects w a [err]\<rparr>"
    unfolding dispatch_close close_same [OF same]
    by (simp add: log_def assms(2) fold_delete_Nil)
  also have "\<dots> = (w\<lparr>processes := []\<rparr>)\<lparr>streams := fold AList.delete (close_ids w a) (streams w),
            trace := trace w @ Emit a ''close'' [err] # close_effects w a [err]\<rparr>"
    by simp
  finally show ?thesis
    using assms(1) unfolding p by (simp add: disconnect_stream_def stream_close_trace_def)
qed

lemma disconnect_streams:
  assumes "distinct ks"
    and "\<forall>k\<in>set ks. \<exists>a. map_of (streams w) k = Some a \<and> k \<in> set (close_ids w a)
            \<and> (\<forall>j\<in>set (close_ids w a). j = k \<or> map_of (streams w) j = None)"
    and "\<forall>k. map_of (streams w) k \<noteq> None \<longrightarrow> k \<in> set ks"
    and "processes w = []"
  shows "for_each (disconnect_stream err) ks w =
           Done (w\<lparr>streams := [], trace := trace w @ concat (map (stream_close_trace w err) ks)\<rparr>)"
  using assms
proof (induction ks arbitrary: w)
  case Nil
  then have "streams w = []" by (intro registry_empty) auto
  then have "w\<lparr>streams := []\<rparr> = w" by (cases w) simp
  then show ?case by simp
next
  case (Cons k ks)
  from Cons.prems(2) obtain a where a: "map_of (streams w) k = Some a" "k \<in> set (close_ids w a)"
      "\<forall>j\<in>set (close_ids w a). j = k \<or> map_of (streams w) j = None"
    by auto
  define w1 where "w1 = w\<lparr>streams := fold AList.delete (close_ids w a) (streams w),
                   trace := trace w @ stream_close_trace w err k\<rparr>"
  have step: "disconnect_stream err k w = Done w1"
    unfolding w1_def by (rule disconnect_stream_step [OF a(1) Cons.prems(4)])
  have same: "heap w1 = heap w" "remote w1 = remote w" by (simp_all add: w1_def)
  have look: "map_of (streams w1) j = (if j \<in> set (close_ids w a) then None else map_of (streams w) j)" for j
    by (simp add: w1_def map_of_fold_delete)
  have kept: "map_of (streams w1) k' = map_of (streams w) k'" if "k' \<in> set ks" for k'
  proof -
    from that Cons.prems(1) have "k' \<noteq> k" by auto
    moreover from that Cons.prems(2) have "map_of (streams w) k' \<noteq> None" by auto
    ultimately have "k' \<notin> set (close_ids w a)" using a(3) by auto
    then show ?thesis by (simp add: look)
  qed
  have ih: "for_each (disconnect_stream err) ks w1 =
          Done (w1\<lparr>streams := [], trace := trace w1 @ concat (map (stream_close_trace w1 err) ks)\<rparr>)"
  proof (rule Cons.IH)
    show "distinct ks" using Cons.prems(1) by simp
    show "\<forall>k\<in>set ks. \<exists>a. map_of (streams w1) k = Some a \<and> k \<in> set (close_ids w1 a)
            \<and> (\<forall>j\<in>set (close_ids w1 a). j = k \<or> map_of (streams w1) j = None)"
    proof
      fix k' assume k': "k' \<in> set ks"
      with Cons.prems(2) obtain a' where a': "map_of (streams w) k' = Some a'"
          "k' \<in> set (close_ids w a')"
          "\<forall>j\<in>set (close_ids w a'). j = k' \<or> map_of (streams w) j = None"
        by auto
      have "map_of (streams w1) k' = Some a'" using kept [OF k'] a'(1) by simp
      moreover have "k' \<in> set (close_ids w1 a')" using a'(2) by (simp add: close_same [OF same])
      moreover have "\<forall>j\<in>set (close_ids w1 a'). j = k' \<or> map_of (streams w1) j = None"
        using a'(3) by (auto simp: close_same [OF same] look)
      ultimately show "\<exists>a. map_of (streams w1) k' = Some a \<and> k' \<in> set (close_ids w1 a)
            \<and> (\<forall>j\<in>set (close_ids w1 a). j = k' \<or> map_of (streams w1) j = None)"
        by blast
    qed
    show "\<forall>j. map_of (streams w1) j \<noteq> None \<longrightarrow> j \<in> set ks"
    proof (intro allI impI)
      fix j assume j: "map_of (streams w1) j \<noteq> None"
      then have "j \<notin> set (close_ids w a)" "map_of (streams w) j \<noteq> None"
        by (auto simp: look split: if_splits)
      with Cons.prems(3) a(2) show "j \<in> set ks" by auto
    qed
    show "processes w1 = []" using Cons.prems(4) by (simp add: w1_def)
  qed
  have eq: "map (stream_close_trace w1 err) ks = map (stream_close_trace w err) ks"
    by (rule map_cong)
       (simp_all add: stream_close_trace_def kept close_same [OF same] split: option.split)
  have "for_each (disconnect_stream err) (k # ks) w = for_each (disconnect_stream err) ks w1"
    using step by simp
  also have "\<dots> = Done (w1\<lparr>streams := [],
                 trace := trace w1 @ concat (map (stream_close_trace w err) ks)\<rparr>)"
    using ih unfolding eq .
  also have "w1\<lparr>streams := [], trace := trace w1 @ concat (map (stream_close_trace w err) ks)\<rparr>
     = w\<lparr>streams := [], trace := trace w @ concat (map (stream_close_trace w err) (k # ks))\<rparr>"
    by (simp add: w1_def)
  finally show ?case .
qed

text \<open>The three loops that delete the key they visit.\<close>

lemma disconnect_process_step:
  assumes "map_of (processes w) k = Some a"
  shows "disconnect_process k w =
           Done (w\<lparr>processes := AList.delete k (processes w), trace := trace w @ kill_trace w k\<rparr>)"
  using assms
  by (simp add: disconnect_process_def kill_trace_def kill_effect_def process_kill_def log_def
        argv_def Let_def split: kill_impl.split)

lemma disconnect_processes:
  assumes "distinct ks"
    and "\<forall>k\<in>set ks. map_of (processes w) k \<noteq> None"
    and "\<forall>k. map_of (processes w) k \<noteq> None \<longrightarrow> k \<in> set ks"
  shows "for_each disconnect_process ks w =
           Done (w\<lparr>processes := [], trace := trace w @ concat (map (kill_trace w) ks)\<rparr>)"
  using assms
proof (induction ks arbitrary: w)
  case Nil
  then have "processes w = []" by (intro registry_empty) auto
  then have "w\<lparr>processes := []\<rparr> = w" by (cases w) simp
  then show ?case by simp
next
  case (Cons k ks)
  from Cons.prems(2) obtain a where a: "map_of (processes w) k = Some a" by auto
  define w1 where "w1 = w\<lparr>processes := AList.delete k (processes w),
                           trace := trace w @ kill_trace w k\<rparr>"
  have step: "disconnect_process k w = Done w1"
    unfolding w1_def by (rule disconnect_process_step [OF a])
  have look: "map_of (processes w1) j = (if j = k then None else map_of (processes w) j)" for j
    by (simp add: w1_def delete_conv')
  have ih: "for_each disconnect_process ks w1 =
          Done (w1\<lparr>processes := [], trace := trace w1 @ concat (map (kill_trace w1) ks)\<rparr>)"
  proof (rule Cons.IH)
    show "distinct ks" using Cons.prems(1) by simp
    show "\<forall>k\<in>set ks. map_of (processes w1) k \<noteq> None"
      using Cons.prems(1,2) by (auto simp: look)
    show "\<forall>j. map_of (processes w1) j \<noteq> None \<longrightarrow> j \<in> set ks"
      using Cons.prems(3) by (auto simp: look split: if_splits)
  qed
  have eq: "map (kill_trace w1) ks = map (kill_trace w) ks"
  proof (rule map_cong)
    fix k' assume "k' \<in> set ks"
    with Cons.prems(1) have "k' \<noteq> k" by auto
    moreover have "heap w1 = heap w" by (simp add: w1_def)
    ultimately show "kill_trace w1 k' = kill_trace w k'"
      by (simp add: kill_trace_def kill_effect_def look split: option.split)
  qed simp
  have "for_each disconnect_process (k # ks) w = for_each disconnect_process ks w1"
    using step by simp
  also have "\<dots> = Done (w1\<lparr>processes := [], trace := trace w1 @ concat (map (kill_trace w) ks)\<rparr>)"
    using ih unfolding eq .
  also have "w1\<lparr>processes := [], trace := trace w1 @ concat (map (kill_trace w) ks)\<rparr>
     = w\<lparr>processes := [], trace := trace w @ concat (map (kill_trace w) (k # ks))\<rparr>"
    by (simp add: w1_def)
  finally show ?case .
qed

lemma onClose_step:
  assumes "map_of (proxyStreams w) k = Some p"
  shows "onClose k w =
           w\<lparr>proxyStreams := AList.delete k (proxyStreams w), trace := trace w @ proxy_close_trace w k\<rparr>"
  using assms by (simp add: onClose_def proxy_close_trace_def log_def)

lemma disconnect_proxies:
  assumes "distinct ks"
    and "\<forall>k\<in>set ks. map_of (proxyStreams w) k \<noteq> None"
    and "\<forall>k. map_of (proxyStreams w) k \<noteq> None \<longrightarrow> k \<in> set ks"
  shows "for_each (\<lambda>i w. Done (onClose i w)) ks w =
           Done (w\<lparr>proxyStreams := [], trace := trace w @ concat (map (proxy_close_trace w) ks)\<rparr>)"
  using assms
proof (induction ks arbitrary: w)
  case Nil
  then have "proxyStreams w = []" by (intro registry_empty) auto
  then have "w\<lparr>proxyStreams := []\<rparr> = w" by (cases w) simp
  then show ?case by simp
next
  case (Cons k ks)
  from Cons.prems(2) obtain p where p: "map_of (proxyStreams w) k = Some p" by auto
  define w1 where "w1 = w\<lparr>proxyStreams := AList.delete k (proxyStreams w),
                           trace := trace w @ proxy_close_trace w k\<rparr>"
  have step: "onClose k w = w1"
    unfolding w1_def by (rule onClose_step [OF p])
  have look: "map_of (proxyStreams w1) j = (if j = k then None else map_of (proxyStreams w) j)" for j
    by (simp add: w1_def delete_conv')
  have ih: "for_each (\<lambda>i w. Done (onClose i w)) ks w1 =
          Done (w1\<lparr>proxyStreams := [], trace := trace w1 @ concat (map (proxy_close_trace w1) ks)\<rparr>)"
  proof (rule Cons.IH)
    show "distinct ks" using Cons.prems(1) by simp
    show "\<forall>k\<in>set ks. map_of (proxyStreams w1) k \<noteq> None"
      using Cons.prems(1,2) by (auto simp: look)
    show "\<forall>j. map_of (proxyStreams w1) j \<noteq> None \<longrightarrow> j \<in> set ks"
      using Cons.prems(3) by (auto simp: look split: if_splits)
  qed
  have eq: "map (proxy_close_trace w1) ks = map (proxy_close_trace w) ks"
  proof (rule map_cong)
    fix k' assume "k' \<in> set ks"
    with Cons.prems(1) have "k' \<noteq> k" by auto
    then show "proxy_close_trace w1 k' = proxy_close_trace w k'"
      by (simp add: proxy_close_trace_def look)
  qed simp
  have "for_each (\<lambda>i w. Done (onClose i w)) (k # ks) w = for_each (\<lambda>i w. Done (onClose i w)) ks w1"
    using step by simp
  also have "\<dots> = Done (w1\<lparr>proxyStreams := [],
                 trace := trace w1 @ concat (map (proxy_close_trace w) ks)\<rparr>)"
    using ih unfolding eq .
  also have "w1\<lparr>proxyStreams := [], trace := trace w1 @ concat (map (proxy_close_trace w) ks)\<rparr>
     = w\<lparr>proxyStreams := [], trace := trace w @ concat (map (proxy_close_trace w) (k # ks))\<rparr>"
    by (simp add: w1_def)
  finally show ?case .
qed

lemma disconnect_watcher_step:
  assumes "map_of (watchers w) k = Some a"
  shows "disconnect_watcher k w =
           Done (w\<lparr>watchers := AList.delete k (watchers w), trace := trace w @ watcher_close_trace w k\<rparr>)"
  using assms by (simp add: disconnect_watcher_def watcher_close_trace_def log_def)

lemma disconnect_watchers:
  assumes "distinct ks"
    and "\<forall>k\<in>set ks. map_of (watchers w) k \<noteq> None"
    and "\<forall>k. map_of (watchers w) k \<noteq> None \<longrightarrow> k \<in> set ks"
  shows "for_each disconnect_watcher ks w =
           Done (w\<lparr>watchers := [], trace := trace w @ concat (map (watcher_close_trace w) ks)\<rparr>)"
  using assms
proof (induction ks arbitrary: w)
  case Nil
  then have "watchers w = []" by (intro registry_empty) auto
  then have "w\<lparr>watchers := []\<rparr> = w" by (cases w) simp
  then show ?case by simp
next
  case (Cons k ks)
  from Cons.prems(2) obtain a where a: "map_of (watchers w) k = Some a" by auto
  define w1 where "w1 = w\<lparr>watchers := AList.delete k (watchers w),
                           trace := trace w @ watcher_close_trace w k\<rparr>"
  have step: "disconnect_watcher k w = Done w1"
    unfolding w1_def by (rule disconnect_watcher_step [OF a])
  have look: "map_of (watchers w1) j = (if j = k then None else map_of (watchers w) j)" for j
    by (simp add: w1_def delete_conv')
  have ih: "for_each disconnect_watcher ks w1 =
          Done (w1\<lparr>watchers := [], trace := trace w1 @ concat (map (watcher_close_trace w1) ks)\<rparr>)"
  proof (rule Cons.IH)
    show "distinct ks" using Cons.prems(1) by simp
    show "\<forall>k\<in>set ks. map_of (watchers w1) k \<noteq> None"
      using Cons.prems(1,2) by (auto simp: look)
    show "\<forall>j. map_of (watchers w1) j \<noteq> None \<longrightarrow> j \<in> set ks"
      using Cons.prems(3) by (auto simp: look split: if_splits)
  qed
  have eq: "map (watcher_close_trace w1) ks = map (watcher_close_trace w) ks"
  proof (rule map_cong)
    fix k' assume "k' \<in> set ks"
    with Cons.prems(1) have "k' \<noteq> k" by auto
    then show "watcher_close_trace w1 k' = watcher_close_trace w k'"
      by (simp add: watcher_close_trace_def look)
  qed simp
  have "for_each disconnect_watcher (k # ks) w = for_each disconnect_watcher ks w1"
    using step by simp
  also have "\<dots> = Done (w1\<lparr>watchers := [],
                 trace := trace w1 @ concat (map (watcher_close_trace w) ks)\<rparr>)"
    using ih unfolding eq .
  also have "w1\<lparr>watchers := [], trace := trace w1 @ concat (map (watcher_close_trace w) ks)\<rparr>
     = w\<lparr>watchers := [], trace := trace w @ concat (map (watcher_close_trace w) (k # ks))\<rparr>"
    by (simp add: w1_def)
  finally show ?case .
qed

lemma keys_registered:
  "\<forall>k\<in>set (object_keys d). map_of d k \<noteq> None"
  "\<forall>k. map_of d k \<noteq> None \<longrightarrow> k \<in> set (object_keys d)"
  by (auto simp: set_object_keys_dom)

lemma disconnect_result:
  assumes "close_listeners_ok w"
  shows "disconnect err0 w =
           Done (w\<lparr>proxyStreams := [], streams := [], watchers := [], processes := [],
                   trace := trace w @ kills w @ stream_closes w (teardown_error err0)
                              @ proxy_closes w @ watcher_closes w\<rparr>)"
proof -
  let ?err = "teardown_error err0"
  define w1 where "w1 = w\<lparr>processes := [], trace := trace w @ kills w\<rparr>"
  define w2 where "w2 = w1\<lparr>streams := [], trace := trace w1 @ stream_closes w ?err\<rparr>"
  define w3 where "w3 = w2\<lparr>proxyStreams := [], trace := trace w2 @ proxy_closes w\<rparr>"
  have p1: "for_each disconnect_process (object_keys (processes w)) w = Done w1"
    unfolding w1_def kills_def
    by (rule disconnect_processes) (simp_all add: distinct_object_keys keys_registered)
  have same1: "heap w1 = heap w" "remote w1 = remote w" "streams w1 = streams w"
    by (simp_all add: w1_def)
  have tr1: "stream_close_trace w1 = stream_close_trace w"
    by (intro ext)
       (simp add: stream_close_trace_def same1 close_same [OF same1(1,2)] split: option.split)
  have "for_each (disconnect_stream ?err) (object_keys (streams w1)) w1 =
          Done (w1\<lparr>streams := [],
                  trace := trace w1 @ concat (map (stream_close_trace w1 ?err) (object_keys (streams w1)))\<rparr>)"
  proof (rule disconnect_streams)
    show "distinct (object_keys (streams w1))" by (rule distinct_object_keys)
    show "\<forall>k\<in>set (object_keys (streams w1)).
            \<exists>a. map_of (streams w1) k = Some a \<and> k \<in> set (close_ids w1 a)
              \<and> (\<forall>j\<in>set (close_ids w1 a). j = k \<or> map_of (streams w1) j = None)"
    proof
      fix k assume k: "k \<in> set (object_keys (streams w1))"
      then obtain a where a: "map_of (streams w) k = Some a"
        by (auto simp: same1 set_object_keys_dom)
      from assms k a have "k \<in> set (close_ids w a)
          \<and> (\<forall>j\<in>set (close_ids w a). j = k \<or> map_of (streams w) j = None)"
        unfolding close_listeners_ok_def same1 by fastforce
      with a show "\<exists>a. map_of (streams w1) k = Some a \<and> k \<in> set (close_ids w1 a)
              \<and> (\<forall>j\<in>set (close_ids w1 a). j = k \<or> map_of (streams w1) j = None)"
        by (simp add: same1 close_same [OF same1(1,2)])
    qed
    show "\<forall>k. map_of (streams w1) k \<noteq> None \<longrightarrow> k \<in> set (object_keys (streams w1))"
      by (rule keys_registered)
    show "processes w1 = []" by (simp add: w1_def)
  qed
  then have p2: "for_each (disconnect_stream ?err) (object_keys (streams w1)) w1 = Done w2"
    unfolding w2_def stream_closes_def tr1 same1 .
  have same2: "proxyStreams w2 = proxyStreams w" "watchers w2 = watchers w" "heap w2 = heap w"
    by (simp_all add: w2_def w1_def)
  have tr2: "proxy_close_trace w2 = proxy_close_trace w"
    by (intro ext) (simp add: proxy_close_trace_def same2)
  have "for_each (\<lambda>i w. Done (onClose i w)) (object_keys (proxyStreams w2)) w2 =
          Done (w2\<lparr>proxyStreams := [],
                  trace := trace w2 @ concat (map (proxy_close_trace w2) (object_keys (proxyStreams w2)))\<rparr>)"
    by (rule disconnect_proxies) (simp_all add: distinct_object_keys keys_registered)
  then have p3: "for_each (\<lambda>i w. Done (onClose i w)) (object_keys (proxyStreams w2)) w2 = Done w3"
    unfolding w3_def proxy_closes_def tr2 same2 .
  have same3: "watchers w3 = watchers w" "heap w3 = heap w"
    by (simp_all add: w3_def same2)
  have tr3: "watcher_close_trace w3 = watcher_close_trace w"
    by (intro ext) (simp add: watcher_close_trace_def same3)
  have "for_each disconnect_watcher (object_keys (watchers w3)) w3 =
          Done (w3\<lparr>watchers := [],
                  trace := trace w3 @ concat (map (watcher_close_trace w3) (object_keys (watchers w3)))\<rparr>)"
    by (rule disconnect_watchers) (simp_all add: distinct_object_keys keys_registered)
  then have p4: "for_each disconnect_watcher (object_keys (watchers w3)) w3 =
          Done (w3\<lparr>watchers := [], trace := trace w3 @ watcher_closes w\<rparr>)"
    unfolding watcher_closes_def tr3 same3 .
  have "disconnect err0 w =
      and_then (for_each disconnect_process (object_keys (processes w)) w) (\<lambda>w1.
      and_then (for_each (disconnect_stream ?err) (object_keys (streams w1)) w1) (\<lambda>w2.
      and_then (for_each (\<lambda>i w. Done (onClose i w)) (object_keys (proxyStreams w2)) w2) (\<lambda>w3.
      for_each disconnect_watcher (object_keys (watchers w3)) w3)))"
    by (unfold disconnect_def teardown_error_def Let_def) (rule refl)
  also have "\<dots> = Done (w3\<lparr>watchers := [], trace := trace w3 @ watcher_closes w\<rparr>)"
    by (simp add: p1 p2 p3 p4 and_then_def)
  also have "w3\<lparr>watchers := [], trace := trace w3 @ watcher_closes w\<rparr> =
      w\<lparr>proxyStreams := [], streams := [], watchers := [], processes := [],
                   trace := trace w @ kills w @ stream_closes w ?err
                              @ proxy_closes w @ watcher_closes w\<rparr>"
    by (simp add: w3_def w2_def w1_def)
  finally show ?thesis .
qed

lemma in_concat_keys:
  "e \<in> set (concat (map f (object_keys d))) \<longleftrightarrow> (\<exists>k. map_of d k \<noteq> None \<and> e \<in> set (f k))"
  by (auto simp: set_object_keys_dom)

lemma in_kills:
  "e \<in> set (kills w) \<longleftrightarrow>
     (\<exists>pid a. map_of (processes w) pid = Some a \<and> \<not> r_unreffed (heap w a) \<and> e = kill_effect w a)"
  unfolding kills_def in_concat_keys kill_trace_def
  by (force split: option.splits if_splits)

lemma in_stream_closes:
  "map_of (streams w) i = Some a \<Longrightarrow> Emit a ''close'' [err] \<in> set (stream_closes w err)"
  unfolding stream_closes_def in_concat_keys stream_close_trace_def
  by (force split: option.splits)

lemma in_proxy_closes:
  "e \<in> set (proxy_closes w) \<longleftrightarrow> (\<exists>i p. map_of (proxyStreams w) i = Some p \<and> e = Proxy_emit (p_obj p) ''close'')"
  unfolding proxy_closes_def in_concat_keys proxy_close_trace_def
  by (force split: option.splits)

lemma in_watcher_closes:
  "e \<in> set (watcher_closes w) \<longleftrightarrow> (\<exists>i a. map_of (watchers w) i = Some a \<and> e = Call a ''close'' [])"
  unfolding watcher_closes_def in_concat_keys watcher_close_trace_def
  by (force split: option.splits)

text \<open>
  Claim C1, as the code has it. From a state in which every registered stream
  carries the \<open>close\<close> listener of its own id and none that deletes another registered
  stream, the handler does not throw. It takes the given error, or \<open>EDISCONNECT\<close> when
  none was given, and then, in this order: kills every process that is not unreffed
  (and no other) and empties \<open>processes\<close>; emits \<open>close(err)\<close> on every registered
  stream, whose listeners empty \<open>streams\<close>; emits \<open>close\<close> on every proxy stream and
  empties \<open>proxyStreams\<close>; closes every watcher and empties \<open>watchers\<close>. Nothing
  else changes: the registry of APIs is as it was.
\<close>

theorem disconnect_teardown:
  assumes "close_listeners_ok w"
  shows "disconnect err0 w =
           Done (w\<lparr>proxyStreams := [], streams := [], watchers := [], processes := [],
                   trace := trace w @ kills w @ stream_closes w (teardown_error err0)
                              @ proxy_closes w @ watcher_closes w\<rparr>)
     \<and> (\<forall>e. e \<in> set (kills w) \<longleftrightarrow>
           (\<exists>pid a. map_of (processes w) pid = Some a \<and> \<not> r_unreffed (heap w a)
                    \<and> e = kill_effect w a))
     \<and> (\<forall>i a. map_of (streams w) i = Some a \<longrightarrow>
           Emit a ''close'' [teardown_error err0] \<in> set (stream_closes w (teardown_error err0)))
     \<and> (\<forall>e. e \<in> set (proxy_closes w) \<longleftrightarrow>
           (\<exists>i p. map_of (proxyStreams w) i = Some p \<and> e = Proxy_emit (p_obj p) ''close''))
     \<and> (\<forall>e. e \<in> set (watcher_closes w) \<longleftrightarrow>
           (\<exists>i a. map_of (watchers w) i = Some a \<and> e = Call a ''close'' []))"
  using disconnect_result [OF assms, of err0] in_kills [of _ w] in_stream_closes [of w]
    in_proxy_closes [of _ w] in_watcher_closes [of _ w]
  by simp

text \<open>The session of the scenario definitions, evaluated.\<close>

lemma session_worker_registries:
  "apis session_worker = [(''ping'', ping_api)]"
  "processes session_worker = [(7, 20), (8, 30)]"
  "streams session_worker = [(2, 21), (3, 22), (4, 23), (5, 31), (6, 32), (7, 33), (8, 4)]"
  "proxyStreams session_worker = [(9, \<lparr>p_obj = 0, p_readable = False, p_writable = True\<rparr>)]"
  "watchers session_worker = [(2, 5)]"
  "trace session_worker = [Call 20 ''unref'' []]"
  "remote session_worker = blocking_peer"
  by (simp_all add: session_worker_def storeApi_def storeProcess_def storeStream_def
        storeWatcher_def makeStreamProxy_def unref_def processes_token_def ping_api_def
        new_Worker_def process_heap_def new_resource_def modify_def log_def Let_def
        skip_occupied_free hasOwnProperty_def)

lemma session_worker_heap:
  "r_unreffed (heap session_worker 20)"
  "\<not> r_unreffed (heap session_worker 30)"
  "r_kill (heap session_worker 30) = Killtree_of 8"
  "r_listeners (heap session_worker 21) = [On_error 2, On_close 2]"
  "r_listeners (heap session_worker 22) = [On_error 3, On_data 3, On_end 3, On_close 3]"
  "r_listeners (heap session_worker 23) = [On_error 4, On_data 4, On_end 4, On_close 4]"
  "r_listeners (heap session_worker 31) = [On_error 5, On_close 5]"
  "r_listeners (heap session_worker 32) = [On_error 6, On_data 6, On_end 6, On_close 6]"
  "r_listeners (heap session_worker 33) = [On_error 7, On_data 7, On_end 7, On_close 7]"
  "r_listeners (heap session_worker 4) = [On_error 8, On_data 8, On_end 8, On_close 8]"
  by (simp_all add: session_worker_def storeApi_def storeProcess_def storeStream_def
        storeWatcher_def makeStreamProxy_def unref_def processes_token_def ping_api_def
        new_Worker_def process_heap_def new_resource_def modify_def log_def Let_def
        skip_occupied_free hasOwnProperty_def)

lemma session_close_ids:
  "close_ids session_worker 21 = [2]" "close_ids session_worker 22 = [3]"
  "close_ids session_worker 23 = [4]" "close_ids session_worker 31 = [5]"
  "close_ids session_worker 32 = [6]" "close_ids session_worker 33 = [7]"
  "close_ids session_worker 4 = [8]"
  by (simp_all add: close_ids_def session_worker_heap)

lemma session_close_effects:
  "close_effects session_worker 21 args = [Remote ''onClose'' [num 2]]"
  "close_effects session_worker 22 args = [Remote ''onClose'' [num 3]]"
  "close_effects session_worker 23 args = [Remote ''onClose'' [num 4]]"
  "close_effects session_worker 31 args = [Remote ''onClose'' [num 5]]"
  "close_effects session_worker 32 args = [Remote ''onClose'' [num 6]]"
  "close_effects session_worker 33 args = [Remote ''onClose'' [num 7]]"
  "close_effects session_worker 4 args = [Remote ''onClose'' [num 8]]"
  by (simp_all add: close_effects_def session_worker_heap session_worker_registries
        blocking_peer_def)

lemma session_ok: "close_listeners_ok session_worker"
  by (simp add: close_listeners_ok_def object_keys_def session_worker_registries
        session_close_ids)

lemma session_traces:
  "kills session_worker = [Vfs_killtree 8 Undef]"
  "stream_closes session_worker EDISCONNECT =
     [Emit 21 ''close'' [EDISCONNECT], Remote ''onClose'' [num 2],
      Emit 22 ''close'' [EDISCONNECT], Remote ''onClose'' [num 3],
      Emit 23 ''close'' [EDISCONNECT], Remote ''onClose'' [num 4],
      Emit 31 ''close'' [EDISCONNECT], Remote ''onClose'' [num 5],
      Emit 32 ''close'' [EDISCONNECT], Remote ''onClose'' [num 6],
      Emit 33 ''close'' [EDISCONNECT], Remote ''onClose'' [num 7],
      Emit 4 ''close'' [EDISCONNECT], Remote ''onClose'' [num 8]]"
  "proxy_closes session_worker = [Proxy_emit 0 ''close'']"
  "watcher_closes session_worker = [Call 5 ''close'' []]"
  by (simp_all add: kills_def kill_trace_def kill_effect_def stream_closes_def
        stream_close_trace_def session_close_effects proxy_closes_def proxy_close_trace_def
        watcher_closes_def watcher_close_trace_def object_keys_def session_worker_registries
        session_worker_heap)

text \<open>
  The teardown of that session: the unreffed process 7 is dropped without a kill,
  process 8 is killed, the seven streams, the proxy and the watcher are closed.
\<close>

theorem disconnect_teardown_witness:
  "close_listeners_ok session_worker
   \<and> disconnect Undef session_worker =
       Done (session_worker\<lparr>proxyStreams := [], streams := [], watchers := [], processes := [],
          trace := [Call 20 ''unref'' [], Vfs_killtree 8 Undef,
            Emit 21 ''close'' [EDISCONNECT], Remote ''onClose'' [num 2],
            Emit 22 ''close'' [EDISCONNECT], Remote ''onClose'' [num 3],
            Emit 23 ''close'' [EDISCONNECT], Remote ''onClose'' [num 4],
            Emit 31 ''close'' [EDISCONNECT], Remote ''onClose'' [num 5],
            Emit 32 ''close'' [EDISCONNECT], Remote ''onClose'' [num 6],
            Emit 33 ''close'' [EDISCONNECT], Remote ''onClose'' [num 7],
            Emit 4 ''close'' [EDISCONNECT], Remote ''onClose'' [num 8],
            Proxy_emit 0 ''close'', Call 5 ''close'' []]\<rparr>)"
  using disconnect_teardown [OF session_ok, of Undef] session_ok
  by (simp add: session_traces teardown_error_def session_worker_registries)

text \<open>
  The claim has every handle dropped, APIs included, and the comment over the handler
  names the proxy APIs among what it cleans up; no line of the handler touches \<open>apis\<close>.
  After the teardown of the session the API \<open>ping\<close> is still registered. The trace
  holds no kill of process 7, which was unreffed: that guard is written out in the
  handler.
\<close>

theorem teardown_leaves_counterexample:
  "map_of (processes session_worker) 7 = Some 20
   \<and> map_of (apis session_worker) ''ping'' = Some ping_api
   \<and> (case disconnect Undef session_worker of
         Done w' \<Rightarrow>
           apis w' = [(''ping'', ping_api)]
           \<and> trace w' = [Call 20 ''unref'' [], Vfs_killtree 8 Undef,
            Emit 21 ''close'' [EDISCONNECT], Remote ''onClose'' [num 2],
            Emit 22 ''close'' [EDISCONNECT], Remote ''onClose'' [num 3],
            Emit 23 ''close'' [EDISCONNECT], Remote ''onClose'' [num 4],
            Emit 31 ''close'' [EDISCONNECT], Remote ''onClose'' [num 5],
            Emit 32 ''close'' [EDISCONNECT], Remote ''onClose'' [num 6],
            Emit 33 ''close'' [EDISCONNECT], Remote ''onClose'' [num 7],
            Emit 4 ''close'' [EDISCONNECT], Remote ''onClose'' [num 8],
            Proxy_emit 0 ''close'', Call 5 ''close'' []]
       | Loops \<Rightarrow> False | Throws \<Rightarrow> False | Unmodelled \<Rightarrow> False)"
  using disconnect_result [OF session_ok, of Undef]
  by (simp add: session_traces teardown_error_def session_worker_registries)

subsection \<open>Streams stored once\<close>

text \<open>
  The state the teardown relies on is the one \<open>storeStream\<close> builds: a new worker has
  it, and storing a stream that has no token and no listener of the worker yet keeps it.
\<close>

lemma listener_close_ids_plain:
  "\<not> deletes_stdio l \<Longrightarrow> listener_close_ids w a l = listener_close_ids w' a' l"
  by (cases l) simp_all

lemma close_ids_plain:
  assumes "\<forall>l \<in> set (r_listeners (heap w a)). \<not> deletes_stdio l"
    and "heap w' a = heap w a"
  shows "close_ids w' a = close_ids w a"
proof -
  have eq: "map (listener_close_ids w' a) (r_listeners (heap w a))
        = map (listener_close_ids w a) (r_listeners (heap w a))"
    using assms(1) by (intro map_cong refl listener_close_ids_plain) simp
  show ?thesis by (simp only: close_ids_def assms(2) eq)
qed

lemma own_close_only_ok: "own_close_only w \<Longrightarrow> close_listeners_ok w"
  unfolding own_close_only_def close_listeners_ok_def
  by (auto split: option.splits)

lemma own_close_only_new: "own_close_only (new_Worker h peer pid)"
  by (simp add: own_close_only_def new_Worker_def object_keys_def)

lemma own_close_only_storeStream:
  assumes inv: "own_close_only w"
    and tok: "r_token (heap w a) = None"
    and new: "r_listeners (heap w a) = []"
    and st: "storeStream a w = Some (tk, w')"
  shows "own_close_only w'"
proof -
  from st tok obtain i where
    i: "skip_occupied (hasOwnProperty (streams w)) ((nextStreamID w + 1) mod 10000) = Some i"
    by (auto simp: storeStream_def split: option.splits)
  then have free: "map_of (streams w) i = None"
    using skip_occupied_result [OF i] by (simp add: hasOwnProperty_def)
  from st tok i have s: "streams w' = AList.update i a (streams w)"
    and h: "\<And>b. b \<noteq> a \<Longrightarrow> heap w' b = heap w b"
    and l: "r_listeners (heap w' a) =
              [On_error i] @ (if r_readable (heap w a) then [On_data i, On_end i] else [])
                @ [On_close i]"
    by (auto simp: storeStream_def Let_def modify_def new)
  have "close_ids w a = []" by (simp add: close_ids_def new)
  show ?thesis
    unfolding own_close_only_def
  proof
    fix j assume "j \<in> set (object_keys (streams w'))"
    show "case map_of (streams w') j of
            None \<Rightarrow> True
          | Some b \<Rightarrow> (\<forall>l \<in> set (r_listeners (heap w' b)). \<not> deletes_stdio l) \<and> close_ids w' b = [j]"
    proof (cases "j = i")
      case True
      then have "map_of (streams w') j = Some a" by (simp add: s update_conv')
      moreover have "close_ids w' a = [i]"
        by (cases "r_readable (heap w a)") (simp_all add: close_ids_def l)
      moreover have "\<forall>l \<in> set (r_listeners (heap w' a)). \<not> deletes_stdio l"
        by (cases "r_readable (heap w a)") (simp_all add: l)
      ultimately show ?thesis using True by simp
    next
      case False
      then have m: "map_of (streams w') j = map_of (streams w) j" by (simp add: s update_conv')
      show ?thesis
      proof (cases "map_of (streams w) j")
        case None
        then show ?thesis by (simp add: m)
      next
        case (Some b)
        then have "j \<in> set (object_keys (streams w))" by (auto simp: set_object_keys_dom)
        with inv Some have p: "\<forall>l \<in> set (r_listeners (heap w b)). \<not> deletes_stdio l"
          and c: "close_ids w b = [j]"
          unfolding own_close_only_def by force+
        from c \<open>close_ids w a = []\<close> have "b \<noteq> a" by auto
        then have hb: "heap w' b = heap w b" by (rule h)
        have "close_ids w' b = [j]" using close_ids_plain [OF p hb] c by simp
        with p hb show ?thesis by (simp add: m Some)
      qed
    qed
  qed
qed

subsection \<open>The callback marshaller\<close>

lemma project_Nil: "project m [] tk w = Done (tk, w)"
  by simp

lemma project_skip:
  "nullish (map_of m key) \<Longrightarrow> project m (key # keys) tk w = project m keys tk w"
  by simp

lemma project_store:
  "map_of m key = Some v \<Longrightarrow> \<not> nullish (Some v) \<Longrightarrow>
   project m (key # keys) tk w =
     and_then (store_by_key key v w) (\<lambda>(tv, w'). project m keys (AList.update key tv tk) w')"
  by (simp add: and_then_def split: outcome.split)

lemma not_nullish_Some: "\<not> nullish x \<Longrightarrow> \<exists>v. x = Some v"
  by (cases x) simp_all

lemma project_keeps:
  "project m ks tk w = Done (tk', w') \<Longrightarrow> k \<notin> set ks \<Longrightarrow> map_of tk' k = map_of tk k"
proof (induction ks arbitrary: tk w)
  case Nil
  then show ?case by simp
next
  case (Cons key ks)
  show ?case
  proof (cases "nullish (map_of m key)")
    case True
    with Cons show ?thesis by simp
  next
    case False
    then obtain v where v: "map_of m key = Some v" "\<not> nullish (Some v)"
      using not_nullish_Some by force
    from Cons.prems(1) obtain tv w1 where s: "store_by_key key v w = Done (tv, w1)"
        "project m ks (AList.update key tv tk) w1 = Done (tk', w')"
      unfolding project_store [OF v] by (auto simp: and_then_def split: outcome.splits)
    from Cons.IH [OF s(2)] Cons.prems(2) show ?thesis by (simp add: update_conv')
  qed
qed

lemma project_dropped:
  "project m ks tk w = Done (tk', w') \<Longrightarrow> nullish (map_of m k) \<Longrightarrow> map_of tk' k = map_of tk k"
proof (induction ks arbitrary: tk w)
  case Nil
  then show ?case by simp
next
  case (Cons key ks)
  show ?case
  proof (cases "nullish (map_of m key)")
    case True
    with Cons show ?thesis by simp
  next
    case False
    then obtain v where v: "map_of m key = Some v" "\<not> nullish (Some v)"
      using not_nullish_Some by force
    from Cons.prems(1) obtain tv w1 where s: "store_by_key key v w = Done (tv, w1)"
        "project m ks (AList.update key tv tk) w1 = Done (tk', w')"
      unfolding project_store [OF v] by (auto simp: and_then_def split: outcome.splits)
    from False Cons.prems(2) have "key \<noteq> k" by auto
    with Cons.IH [OF s(2) Cons.prems(2)] show ?thesis by (simp add: update_conv')
  qed
qed

lemma project_stored:
  assumes "project m ks tk w = Done (tk', w')" and "distinct ks" and "k \<in> set ks"
    and "map_of m k = Some v" and "\<not> nullish (Some v)"
  shows "\<exists>tk1 w1 tv w2. project m (takeWhile (\<lambda>j. j \<noteq> k) ks) tk w = Done (tk1, w1)
           \<and> store_by_key k v w1 = Done (tv, w2) \<and> map_of tk' k = Some tv"
  using assms(1,2,3)
proof (induction ks arbitrary: tk w)
  case Nil
  then show ?case by simp
next
  case (Cons key ks)
  show ?case
  proof (cases "key = k")
    case True
    from Cons.prems(1) obtain tv w1 where s: "store_by_key k v w = Done (tv, w1)"
        "project m ks (AList.update k tv tk) w1 = Done (tk', w')"
      unfolding True project_store [OF assms(4,5)]
      by (auto simp: and_then_def split: outcome.splits)
    from Cons.prems(2) True have "k \<notin> set ks" by simp
    from project_keeps [OF s(2) this] have "map_of tk' k = Some tv" by (simp add: update_conv')
    with s(1) True show ?thesis by simp
  next
    case False
    with Cons.prems(3) have k: "k \<in> set ks" by simp
    from Cons.prems(2) have d: "distinct ks" by simp
    show ?thesis
    proof (cases "nullish (map_of m key)")
      case True
      with Cons.prems(1) have "project m ks tk w = Done (tk', w')" by simp
      from Cons.IH [OF this d k] show ?thesis using True False by simp
    next
      case nn: False
      then obtain u where u: "map_of m key = Some u" "\<not> nullish (Some u)"
        using not_nullish_Some by force
      from Cons.prems(1) obtain tu w0 where s: "store_by_key key u w = Done (tu, w0)"
          "project m ks (AList.update key tu tk) w0 = Done (tk', w')"
        unfolding project_store [OF u] by (auto simp: and_then_def split: outcome.splits)
      from Cons.IH [OF s(2) d k] obtain tk1 w1 tv w2 where
        r: "project m (takeWhile (\<lambda>j. j \<noteq> k) ks) (AList.update key tu tk) w0 = Done (tk1, w1)"
           "store_by_key k v w1 = Done (tv, w2)" "map_of tk' k = Some tv"
        by blast
      have "takeWhile (\<lambda>j. j \<noteq> k) (key # ks) = key # takeWhile (\<lambda>j. j \<noteq> k) ks"
        using False by simp
      then have "project m (takeWhile (\<lambda>j. j \<noteq> k) (key # ks)) tk w =
          and_then (store_by_key key u w)
            (\<lambda>(tv, w'). project m (takeWhile (\<lambda>j. j \<noteq> k) ks) (AList.update key tv tk) w')"
        by (simp only: project_store [OF u])
      also have "\<dots> = Done (tk1, w1)" using r(1) s(1) by (simp add: and_then_def)
      finally have "project m (takeWhile (\<lambda>j. j \<noteq> k) (key # ks)) tk w = Done (tk1, w1)" .
      with r(2,3) show ?thesis by blast
    qed
  qed
qed

lemma make_nerr_entries:
  "\<exists>e. make_nerr pid err = Obj e
     \<and> map_of e ''stack'' = Some (Plain (JStr (show_nat pid @ '': '' @ to_string (get_own err ''stack''))))
     \<and> map_of e ''code'' = get_own err ''code''
     \<and> map_of e ''message'' = get_own err ''message''
     \<and> map_of e ''stdout'' = get_own err ''stdout''
     \<and> map_of e ''stderr'' = get_own err ''stderr''
     \<and> set (map fst e) \<subseteq> {''stack'', ''code'', ''message'', ''stdout'', ''stderr''}"
  by (auto simp: make_nerr_def copy_own_def split: option.splits)

lemma processCallback_envelope_only:
  "truthy_cb err \<Longrightarrow> \<not> truthy_cb m \<Longrightarrow>
   processCallback err m w = Done ([make_nerr (server_pid w) err], w)"
  by (simp add: processCallback_def)

lemma processCallback_projected:
  assumes "\<not> (truthy_cb err \<and> \<not> truthy_cb m)" and "processCallback err m w = Done (args, w')"
  shows "\<exists>tk. project (own_entries m) (map fst (own_entries m)) [] w = Done (tk, w')
           \<and> args = [if truthy_cb err then make_nerr (server_pid w) err else Prim Undefined, Obj tk]"
  using assms
  by (auto simp: processCallback_def and_then_def split: outcome.splits if_splits)

lemma store_by_key_table:
  "store_by_key ''stream'' (Resource a) w = with_token (storeStream a w)"
  "store_by_key ''process'' (Resource a) w = of_option (storeProcess a False w)"
  "store_by_key ''pty'' (Resource a) w = of_option (storePty a w)"
  "store_by_key ''watcher'' (Resource a) w = with_token (storeWatcher a w)"
  "store_by_key ''api'' (Api_obj x) w = Done (storeApi x w)"
  "k \<notin> {''stream'', ''process'', ''pty'', ''watcher'', ''api''} \<Longrightarrow> store_by_key k v w = Done (v, w)"
  by (simp_all add: store_by_key_def)

subsection \<open>The marshaller returns\<close>

lemma length_keys_update:
  "length (object_keys (AList.update i a d)) \<le> Suc (length (object_keys d))"
proof -
  have "set (object_keys (AList.update i a d)) = insert i (set (object_keys d))"
    by (simp add: set_object_keys dom_update)
  then have "card (set (object_keys (AList.update i a d))) \<le> Suc (card (set (object_keys d)))"
    by (simp add: card_insert_le_m1 card_insert_if)
  then show ?thesis
    by (simp add: distinct_card [OF distinct_object_keys])
qed

lemma storeStream_total:
  assumes "length (object_keys (streams w)) < 10000"
  shows "\<exists>tk w'. storeStream a w = Some (tk, w')
           \<and> length (object_keys (streams w')) \<le> Suc (length (object_keys (streams w)))
           \<and> watchers w' = watchers w"
proof (cases "r_token (heap w a)")
  case (Some tk)
  then show ?thesis by (simp add: storeStream_def)
next
  case None
  obtain i where i: "first_free (streams w) (nextStreamID w) = Some i"
    using first_free_exists [OF assms] by blast
  show ?thesis
    using None i length_keys_update [of i a "streams w"]
    unfolding storeStream_def skip_occupied_first_free
    by (simp add: Let_def modify_def)
qed

lemma storeWatcher_total:
  assumes "length (object_keys (watchers w)) < 10000"
  shows "\<exists>tk w'. storeWatcher a w = Some (tk, w')
           \<and> length (object_keys (watchers w')) \<le> Suc (length (object_keys (watchers w)))
           \<and> streams w' = streams w"
proof -
  obtain i where i: "first_free (watchers w) (nextWatcherID w) = Some i"
    using first_free_exists [OF assms] by blast
  show ?thesis
    using i length_keys_update [of i a "watchers w"]
    unfolding storeWatcher_def skip_occupied_first_free
    by (simp add: Let_def modify_def)
qed

lemma storeProcess_only_pid:
  "\<exists>v w'. storeProcess p True w = Some (v, w') \<and> streams w' = streams w \<and> watchers w' = watchers w"
  by (simp add: storeProcess_def processes_token_def Let_def modify_def)

lemma storeProcess_total:
  assumes "length (object_keys (streams w)) + 3 \<le> 10000"
  shows "\<exists>v w'. storeProcess p False w = Some (v, w')
           \<and> length (object_keys (streams w')) \<le> length (object_keys (streams w)) + 3
           \<and> watchers w' = watchers w"
proof -
  define w1 where "w1 = modify p (\<lambda>s. s\<lparr>r_listeners := r_listeners s
                                     @ [On_exit (r_pid (heap w p)), On_process_close (r_pid (heap w p)) False],
                                  r_kill := Killtree_of (r_pid (heap w p)),
                                  r_token := Some (Token None None None (Some (r_pid (heap w p))) None None None)\<rparr>)
                   (w\<lparr>processes := AList.update (r_pid (heap w p)) p (processes w)\<rparr>)"
  have s1: "streams w1 = streams w" "watchers w1 = watchers w"
    by (simp_all add: w1_def modify_def)
  obtain t2 w2 where w2: "storeStream (r_stdin (heap w1 p)) w1 = Some (t2, w2)"
      "length (object_keys (streams w2)) \<le> Suc (length (object_keys (streams w1)))"
      "watchers w2 = watchers w1"
    using storeStream_total [of w1 "r_stdin (heap w1 p)"] assms s1 by auto
  obtain t3 w3 where w3: "storeStream (r_stdout (heap w2 p)) w2 = Some (t3, w3)"
      "length (object_keys (streams w3)) \<le> Suc (length (object_keys (streams w2)))"
      "watchers w3 = watchers w2"
    using storeStream_total [of w2 "r_stdout (heap w2 p)"] assms s1 w2(2) by auto
  obtain t4 w4 where w4: "storeStream (r_stderr (heap w3 p)) w3 = Some (t4, w4)"
      "length (object_keys (streams w4)) \<le> Suc (length (object_keys (streams w3)))"
      "watchers w4 = watchers w3"
    using storeStream_total [of w3 "r_stderr (heap w3 p)"] assms s1 w2(2) w3(2) by auto
  have "storeProcess p False w =
          Some (Tok (Token None None None (Some (r_pid (heap w p))) (Some t2) (Some t3) (Some t4)),
                modify p (\<lambda>s. s\<lparr>r_token := Some (Token None None None (Some (r_pid (heap w p)))
                                                  (Some t2) (Some t3) (Some t4))\<rparr>) w4)"
    using w2(1) w3(1) w4(1)
    by (simp add: storeProcess_def processes_token_def Let_def w1_def [symmetric])
  moreover have "length (object_keys (streams w4)) \<le> length (object_keys (streams w)) + 3"
    using w2(2) w3(2) w4(2) s1 by simp
  ultimately show ?thesis using w2(3) w3(3) w4(3) s1 by (simp add: modify_def)
qed

lemma storePty_total:
  assumes "length (object_keys (streams w)) < 10000"
  shows "\<exists>v w'. storePty p w = Some (v, w')
           \<and> length (object_keys (streams w')) \<le> Suc (length (object_keys (streams w)))
           \<and> watchers w' = watchers w"
proof (cases "map_of (processes w) (r_pid (heap w p)) = Some p")
  case True
  then show ?thesis by (simp add: storePty_def)
next
  case False
  obtain pid w1 where w1: "storeProcess p True w = Some (pid, w1)" "streams w1 = streams w"
      "watchers w1 = watchers w"
    using storeProcess_only_pid by blast
  define w2 where "w2 = modify p (\<lambda>s. s\<lparr>r_token := None\<rparr>) w1"
  define w3 where "w3 = modify p (\<lambda>s.
                      if r_resume s = None then
                        (case r_socket s of
                           Some k \<Rightarrow> s\<lparr>r_resume := r_resume (heap w2 k)\<rparr>
                         | None \<Rightarrow> s)
                      else s) w2"
  define w4 where "w4 = modify p (\<lambda>s.
                      if r_pause s = None then
                        (case r_socket s of
                           Some k \<Rightarrow> s\<lparr>r_pause := r_pause (heap w3 k)\<rparr>
                         | None \<Rightarrow> s)
                      else s) w3"
  have s4: "streams w4 = streams w" "watchers w4 = watchers w"
    using w1(2,3) by (simp_all add: w4_def w3_def w2_def modify_def)
  obtain t5 w5 where w5: "storeStream p w4 = Some (t5, w5)"
      "length (object_keys (streams w5)) \<le> Suc (length (object_keys (streams w4)))"
      "watchers w5 = watchers w4"
    using storeStream_total [of w4 p] assms s4 by auto
  define f :: "resource \<Rightarrow> resource" where "f = (\<lambda>s. s\<lparr>r_token := Some (set_tok_pid pid t5),
                      r_listeners := r_listeners s @ (case pid of Pid n \<Rightarrow> [On_kill n] | _ \<Rightarrow> [])\<rparr>)"
  have "storePty p w = Some (Tok (set_tok_pid pid t5), modify p f w5)"
    unfolding storePty_def Let_def f_def
    using False w1(1) w5(1) [unfolded w4_def w3_def w2_def] by simp
  moreover have "streams (modify p f w5) = streams w5" "watchers (modify p f w5) = watchers w5"
    by (simp_all add: modify_def)
  ultimately show ?thesis using w5(2,3) s4 by simp
qed

lemma store_by_key_total:
  assumes "\<not> nullish (Some v)" and "right_kind key v"
    and "length (object_keys (streams w)) + stream_slots [key] \<le> 10000"
    and "length (object_keys (watchers w)) + watcher_slots [key] \<le> 10000"
  shows "\<exists>tv w'. store_by_key key v w = Done (tv, w')
           \<and> length (object_keys (streams w')) \<le> length (object_keys (streams w)) + stream_slots [key]
           \<and> length (object_keys (watchers w')) \<le> length (object_keys (watchers w)) + watcher_slots [key]"
proof -
  consider "key = ''stream''" | "key = ''process''" | "key = ''pty''" | "key = ''watcher''"
    | "key = ''api''" | "key \<notin> {''stream'', ''process'', ''pty'', ''watcher'', ''api''}"
    by blast
  then show ?thesis
  proof cases
    case 1
    then obtain a where a: "v = Resource a" using assms(2) by (cases v) (simp_all add: right_kind_def)
    from assms(3) 1 have "length (object_keys (streams w)) < 10000" by (simp add: stream_slots_def)
    from storeStream_total [OF this, of a] show ?thesis
      using 1 a by (auto simp: store_by_key_def with_token_def stream_slots_def watcher_slots_def)
  next
    case 2
    then obtain a where a: "v = Resource a" using assms(2) by (cases v) (simp_all add: right_kind_def)
    from assms(3) 2 have "length (object_keys (streams w)) + 3 \<le> 10000" by (simp add: stream_slots_def)
    from storeProcess_total [OF this, of a] show ?thesis
      using 2 a by (auto simp: store_by_key_def of_option_def stream_slots_def watcher_slots_def)
  next
    case 3
    then obtain a where a: "v = Resource a" using assms(2) by (cases v) (simp_all add: right_kind_def)
    from assms(3) 3 have "length (object_keys (streams w)) < 10000" by (simp add: stream_slots_def)
    from storePty_total [OF this, of a] show ?thesis
      using 3 a by (auto simp: store_by_key_def of_option_def stream_slots_def watcher_slots_def)
  next
    case 4
    then obtain a where a: "v = Resource a" using assms(2) by (cases v) (simp_all add: right_kind_def)
    from assms(4) 4 have "length (object_keys (watchers w)) < 10000" by (simp add: watcher_slots_def)
    from storeWatcher_total [OF this, of a] show ?thesis
      using 4 a by (auto simp: store_by_key_def with_token_def stream_slots_def watcher_slots_def)
  next
    case 5
    then obtain x where x: "v = Api_obj x" using assms(2) by (cases v) (simp_all add: right_kind_def)
    show ?thesis using 5 x
      by (simp add: store_by_key_def storeApi_def stream_slots_def watcher_slots_def)
  next
    case 6
    then show ?thesis by (simp add: store_by_key_def stream_slots_def watcher_slots_def)
  qed
qed

lemma slots_Cons:
  "key \<notin> set ks \<Longrightarrow> stream_slots (key # ks) = stream_slots [key] + stream_slots ks"
  "key \<notin> set ks \<Longrightarrow> watcher_slots (key # ks) = watcher_slots [key] + watcher_slots ks"
  by (auto simp: stream_slots_def watcher_slots_def)

lemma slots_mono:
  "stream_slots ks \<le> stream_slots (key # ks)" "watcher_slots ks \<le> watcher_slots (key # ks)"
  by (auto simp: stream_slots_def watcher_slots_def)

lemma project_total:
  assumes "distinct ks"
    and "\<And>k v. k \<in> set ks \<Longrightarrow> map_of m k = Some v \<Longrightarrow> nullish (Some v) \<or> right_kind k v"
    and "length (object_keys (streams w)) + stream_slots ks \<le> 10000"
    and "length (object_keys (watchers w)) + watcher_slots ks \<le> 10000"
  shows "\<exists>tk' w'. project m ks tk w = Done (tk', w')"
  using assms
proof (induction ks arbitrary: tk w)
  case Nil
  then show ?case by simp
next
  case (Cons key ks)
  note IH = Cons.IH and prems = Cons.prems
  from prems(1) have d: "distinct ks" and nk: "key \<notin> set ks" by simp_all
  have kinds: "\<And>k v. k \<in> set ks \<Longrightarrow> map_of m k = Some v \<Longrightarrow> nullish (Some v) \<or> right_kind k v"
    using prems(2) by simp
  show ?case
  proof (cases "nullish (map_of m key)")
    case True
    have "\<exists>tk' w'. project m ks tk w = Done (tk', w')"
    proof (rule IH [OF d kinds])
      show "length (object_keys (streams w)) + stream_slots ks \<le> 10000"
        using prems(3) slots_mono(1) [of ks key] by linarith
      show "length (object_keys (watchers w)) + watcher_slots ks \<le> 10000"
        using prems(4) slots_mono(2) [of ks key] by linarith
    qed
    with True show ?thesis by simp
  next
    case False
    then obtain v where v: "map_of m key = Some v" "\<not> nullish (Some v)"
      using not_nullish_Some by force
    from prems(2) [of key v] v have rk: "right_kind key v" by simp
    obtain tv w1 where s: "store_by_key key v w = Done (tv, w1)"
        "length (object_keys (streams w1)) \<le> length (object_keys (streams w)) + stream_slots [key]"
        "length (object_keys (watchers w1)) \<le> length (object_keys (watchers w)) + watcher_slots [key]"
      using store_by_key_total [OF v(2) rk, of w] prems(3,4) slots_Cons [OF nk] by auto
    have "\<exists>tk' w'. project m ks (AList.update key tv tk) w1 = Done (tk', w')"
    proof (rule IH [OF d kinds])
      show "length (object_keys (streams w1)) + stream_slots ks \<le> 10000"
        using prems(3) s(2) slots_Cons(1) [OF nk] by linarith
      show "length (object_keys (watchers w1)) + watcher_slots ks \<le> 10000"
        using prems(4) s(3) slots_Cons(2) [OF nk] by linarith
    qed
    then show ?thesis unfolding project_store [OF v] using s(1) by (simp add: and_then_def)
  qed
qed

lemma slots_bound: "stream_slots ks \<le> 5" "watcher_slots ks \<le> 1"
  by (simp_all add: stream_slots_def watcher_slots_def)

lemma processCallback_total:
  assumes "distinct (map fst (own_entries m))" and "kinds_ok (own_entries m)"
    and "length (object_keys (streams w)) \<le> 9995"
    and "length (object_keys (watchers w)) \<le> 9999"
  shows "\<exists>args w'. processCallback err m w = Done (args, w')"
proof -
  have "\<exists>tk' w'. project (own_entries m) (map fst (own_entries m)) [] w = Done (tk', w')"
  proof (rule project_total [OF assms(1)])
    fix k v assume "map_of (own_entries m) k = Some v"
    then have "(k, v) \<in> set (own_entries m)" by (rule map_of_SomeD)
    with assms(2) show "nullish (Some v) \<or> right_kind k v" by (auto simp: kinds_ok_def)
  next
    show "length (object_keys (streams w)) + stream_slots (map fst (own_entries m)) \<le> 10000"
      using assms(3) slots_bound(1) [of "map fst (own_entries m)"] by linarith
    show "length (object_keys (watchers w)) + watcher_slots (map fst (own_entries m)) \<le> 10000"
      using assms(4) slots_bound(2) [of "map fst (own_entries m)"] by linarith
  qed
  then show ?thesis by (auto simp: processCallback_def and_then_def)
qed

text \<open>
  Claim C4, as the code has it, for a result object with distinct keys, values of the
  right kind under the five names, and room for the ids (at most 9995 streams and 9999
  watchers registered). With an error and no result the callback gets the envelope
  alone and the worker is unchanged. Otherwise \<open>processCallback\<close> returns and the
  callback gets two arguments: the envelope, or \<open>undefined\<close> when there is no error,
  and the projection. In the projection a key whose value is \<open>undefined\<close> or \<open>null\<close>
  is absent; every other key holds what the \<open>switch\<close> gives for its value in the
  worker as the earlier keys left it: under \<open>stream\<close>, \<open>process\<close>, \<open>pty\<close>, \<open>watcher\<close>
  and \<open>api\<close> the token of \<open>storeStream\<close>, \<open>storeProcess\<close>, \<open>storePty\<close>,
  \<open>storeWatcher\<close> and \<open>storeApi\<close>, under any other name the value itself. The
  envelope has the stack \<open>"<pid>: " + err.stack\<close>, the properties \<open>code\<close>, \<open>message\<close>,
  \<open>stdout\<close> and \<open>stderr\<close> exactly when \<open>err\<close> owns them, and nothing else.
\<close>

theorem callback_marshaller:
  assumes "distinct (map fst (own_entries m))" and "kinds_ok (own_entries m)"
    and "length (object_keys (streams w)) \<le> 9995"
    and "length (object_keys (watchers w)) \<le> 9999"
  shows "(truthy_cb err \<and> \<not> truthy_cb m \<longrightarrow>
            processCallback err m w = Done ([make_nerr (server_pid w) err], w))
     \<and> (\<not> (truthy_cb err \<and> \<not> truthy_cb m) \<longrightarrow>
          (\<exists>tk w'. processCallback err m w =
                Done ([if truthy_cb err then make_nerr (server_pid w) err else Prim Undefined, Obj tk], w')
             \<and> (\<forall>k. nullish (map_of (own_entries m) k) \<longrightarrow> map_of tk k = None)
             \<and> (\<forall>k v. map_of (own_entries m) k = Some v \<and> \<not> nullish (Some v) \<longrightarrow>
                  (\<exists>tk1 w1 tv w2.
                      project (own_entries m)
                        (takeWhile (\<lambda>j. j \<noteq> k) (map fst (own_entries m))) [] w = Done (tk1, w1)
                      \<and> store_by_key k v w1 = Done (tv, w2)
                      \<and> map_of tk k = Some tv))))
     \<and> (\<forall>a w1. store_by_key ''stream'' (Resource a) w1 = with_token (storeStream a w1)
              \<and> store_by_key ''process'' (Resource a) w1 = of_option (storeProcess a False w1)
              \<and> store_by_key ''pty'' (Resource a) w1 = of_option (storePty a w1)
              \<and> store_by_key ''watcher'' (Resource a) w1 = with_token (storeWatcher a w1))
     \<and> (\<forall>x w1. store_by_key ''api'' (Api_obj x) w1 = Done (storeApi x w1))
     \<and> (\<forall>k v w1. k \<notin> {''stream'', ''process'', ''pty'', ''watcher'', ''api''} \<longrightarrow>
            store_by_key k v w1 = Done (v, w1))
     \<and> (\<exists>e. make_nerr (server_pid w) err = Obj e
          \<and> map_of e ''stack'' =
              Some (Plain (JStr (show_nat (server_pid w) @ '': '' @ to_string (get_own err ''stack''))))
          \<and> map_of e ''code'' = get_own err ''code''
          \<and> map_of e ''message'' = get_own err ''message''
          \<and> map_of e ''stdout'' = get_own err ''stdout''
          \<and> map_of e ''stderr'' = get_own err ''stderr''
          \<and> set (map fst e) \<subseteq> {''stack'', ''code'', ''message'', ''stdout'', ''stderr''})"
proof (intro conjI allI impI)
  assume h: "\<not> (truthy_cb err \<and> \<not> truthy_cb m)"
  obtain args w' where r: "processCallback err m w = Done (args, w')"
    using processCallback_total [OF assms] by blast
  with h obtain tk where tk: "project (own_entries m) (map fst (own_entries m)) [] w = Done (tk, w')"
      "args = [if truthy_cb err then make_nerr (server_pid w) err else Prim Undefined, Obj tk]"
    using processCallback_projected by blast
  have dropped: "\<forall>k. nullish (map_of (own_entries m) k) \<longrightarrow> map_of tk k = None"
    using project_dropped [OF tk(1)] by simp
  have stored: "\<forall>k v. map_of (own_entries m) k = Some v \<and> \<not> nullish (Some v) \<longrightarrow>
                  (\<exists>tk1 w1 tv w2.
                      project (own_entries m)
                        (takeWhile (\<lambda>j. j \<noteq> k) (map fst (own_entries m))) [] w = Done (tk1, w1)
                      \<and> store_by_key k v w1 = Done (tv, w2)
                      \<and> map_of tk k = Some tv)"
  proof (intro allI impI)
    fix k v assume kv: "map_of (own_entries m) k = Some v \<and> \<not> nullish (Some v)"
    then have "k \<in> set (map fst (own_entries m))"
      by (metis map_of_eq_None_iff option.distinct(1) set_map)
    from project_stored [OF tk(1) assms(1) this] kv
    show "\<exists>tk1 w1 tv w2.
                      project (own_entries m)
                        (takeWhile (\<lambda>j. j \<noteq> k) (map fst (own_entries m))) [] w = Done (tk1, w1)
                      \<and> store_by_key k v w1 = Done (tv, w2)
                      \<and> map_of tk k = Some tv"
      by blast
  qed
  from r tk(2) dropped stored
  show "\<exists>tk w'. processCallback err m w =
                Done ([if truthy_cb err then make_nerr (server_pid w) err else Prim Undefined, Obj tk], w')
             \<and> (\<forall>k. nullish (map_of (own_entries m) k) \<longrightarrow> map_of tk k = None)
             \<and> (\<forall>k v. map_of (own_entries m) k = Some v \<and> \<not> nullish (Some v) \<longrightarrow>
                  (\<exists>tk1 w1 tv w2.
                      project (own_entries m)
                        (takeWhile (\<lambda>j. j \<noteq> k) (map fst (own_entries m))) [] w = Done (tk1, w1)
                      \<and> store_by_key k v w1 = Done (tv, w2)
                      \<and> map_of tk k = Some tv))"
    by blast
next
  show "\<exists>e. make_nerr (server_pid w) err = Obj e
          \<and> map_of e ''stack'' =
              Some (Plain (JStr (show_nat (server_pid w) @ '': '' @ to_string (get_own err ''stack''))))
          \<and> map_of e ''code'' = get_own err ''code''
          \<and> map_of e ''message'' = get_own err ''message''
          \<and> map_of e ''stdout'' = get_own err ''stdout''
          \<and> map_of e ''stderr'' = get_own err ''stderr''
          \<and> set (map fst e) \<subseteq> {''stack'', ''code'', ''message'', ''stdout'', ''stderr''}"
    by (rule make_nerr_entries)
qed (simp_all add: processCallback_envelope_only store_by_key_table)

text \<open>
  Scenario S6 on a worker with nothing registered: the stream becomes its token,
  \<open>mime\<close> passes through, the undefined \<open>etag\<close> is dropped, and the stream is
  registered under id 2. And an \<open>ENOENT\<close> error alone: the envelope keeps the stack
  and the code and drops \<open>errno\<close>.
\<close>

lemma show_nat_4242: "show_nat 4242 = ''4242''"
  by (simp add: show_nat.simps digit_def)

lemma readfile_meta_marshalled:
  "(case processCallback (Prim Null) readfile_meta process_worker of
      Done (args, w') \<Rightarrow>
        args = [Prim Undefined,
                Obj [(''stream'', Tok (Token (Some 2) (Some True) None None None None None)),
                     (''mime'', Plain (JStr ''x''))]]
        \<and> streams w' = [(2, 2)]
    | Loops \<Rightarrow> False | Throws \<Rightarrow> False | Unmodelled \<Rightarrow> False)"
  by (simp add: processCallback_def readfile_meta_def own_entries_def and_then_def
        store_by_key_def with_token_def storeStream_def process_worker_def new_Worker_def
        process_heap_def new_resource_def modify_def Let_def skip_occupied_free
        hasOwnProperty_def)

theorem callback_marshaller_witness:
  "distinct (map fst (own_entries readfile_meta)) \<and> kinds_ok (own_entries readfile_meta)
   \<and> length (object_keys (streams process_worker)) \<le> 9995
   \<and> length (object_keys (watchers process_worker)) \<le> 9999
   \<and> (\<exists>tk w'. processCallback (Prim Null) readfile_meta process_worker = Done ([Prim Undefined, Obj tk], w')
         \<and> tk = [(''stream'', Tok (Token (Some 2) (Some True) None None None None None)),
                 (''mime'', Plain (JStr ''x''))]
         \<and> map_of tk ''etag'' = None
         \<and> streams w' = [(2, 2)])
   \<and> processCallback enoent (Prim Undefined) process_worker =
       Done ([Obj [(''stack'', Plain (JStr ''4242: Error: gone'')), (''code'', Plain (JStr ''ENOENT''))]],
             process_worker)"
proof -
  have d: "distinct (map fst (own_entries readfile_meta))" "kinds_ok (own_entries readfile_meta)"
    by (simp_all add: own_entries_def readfile_meta_def kinds_ok_def right_kind_def)
  have r: "length (object_keys (streams process_worker)) \<le> 9995"
    "length (object_keys (watchers process_worker)) \<le> 9999"
    by (simp_all add: process_worker_def new_Worker_def object_keys_def)
  have u: "distinct (map fst (own_entries (Prim Undefined)))" "kinds_ok (own_entries (Prim Undefined))"
    by (simp_all add: own_entries_def kinds_ok_def)
  from callback_marshaller [OF d r, of "Prim Null"]
  obtain tk w' where t: "processCallback (Prim Null) readfile_meta process_worker
                           = Done ([Prim Undefined, Obj tk], w')"
      "\<forall>k. nullish (map_of (own_entries readfile_meta) k) \<longrightarrow> map_of tk k = None"
    by auto
  have e: "map_of tk ''etag'' = None"
    using t(2) by (simp add: own_entries_def readfile_meta_def)
  have "processCallback enoent (Prim Undefined) process_worker =
          Done ([make_nerr (server_pid process_worker) enoent], process_worker)"
    using callback_marshaller [OF u r, of enoent] by (simp add: enoent_def)
  moreover have "make_nerr (server_pid process_worker) enoent =
      Obj [(''stack'', Plain (JStr ''4242: Error: gone'')), (''code'', Plain (JStr ''ENOENT''))]"
    by (simp add: make_nerr_def copy_own_def get_own_def enoent_def process_worker_def
          new_Worker_def show_nat_4242)
  moreover have "tk = [(''stream'', Tok (Token (Some 2) (Some True) None None None None None)),
                      (''mime'', Plain (JStr ''x''))]" "streams w' = [(2, 2)]"
    using readfile_meta_marshalled unfolding t(1) by simp_all
  ultimately show ?thesis
    using d r t(1) e by simp
qed

text \<open>
  The claim as it was written delivers \<open>null\<close> in place of a missing envelope.
  \<open>nerr\<close> is declared and never assigned when there is no error, so the callback gets
  \<open>undefined\<close>.
\<close>

theorem marshaller_undefined_counterexample:
  "processCallback (Prim Null) (Obj [(''mime'', Plain (JStr ''x''))]) process_worker =
     Done ([Prim Undefined, Obj [(''mime'', Plain (JStr ''x''))]], process_worker)
   \<and> Prim Undefined \<noteq> Prim Null"
  by (simp add: processCallback_def own_entries_def and_then_def store_by_key_def)

subsection \<open>Ping and the server time\<close>








text \<open>
  The RPC method \<open>ping\<close> itself knows nothing of \<open>"serverTime"\<close>: called as
  \<open>ping("serverTime", cb)\<close> it calls the string, a \<open>TypeError\<close>. And \<open>call\<close> on a worker
  without the named API does nothing.
\<close>

lemma ping_not_a_function: "ping (Val (Prim (Str ''serverTime''))) now w = Throws"
  by (simp add: ping_def)

lemma call_unknown_api:
  "map_of (apis w) name = None \<Longrightarrow> call name fnName args now w = w"
  by (simp add: call_def)

end
